theory Spec2Isabelle
  imports Main "HOL-Library.Word"
begin

unbundle bit_operations_syntax

section \<open>The growing SPMC queue: data model\<close>

text \<open>
  The queue of \<^verbatim>\<open>spmc_queue.h\<close>. \<^verbatim>\<open>uint64_t\<close> and \<^verbatim>\<open>isize\<close> (\<^verbatim>\<open>int64_t\<close>) are
  64-bit words; a signed comparison of the source reads both sides through \<open>sint\<close>.
  A block pointer is an index into the list of blocks ever allocated (\<open>None\<close> is
  \<^verbatim>\<open>NULL\<close>, a freed block is a \<open>None\<close> entry of the list), so that the two pointers
  \<^verbatim>\<open>push.block\<close> and \<^verbatim>\<open>pop.block\<close> alias one block as they do in C.
  One slot of \<^verbatim>\<open>item_size\<close> bytes holds one item, a value of type \<open>'a\<close>;
  the slots that follow a block header are a function from the slot number
  \<^verbatim>\<open>i & mask\<close> to the item stored there.
  A result of \<open>None\<close> means that the C call has no result: it dereferences a dangling
  pointer, fails an \<^verbatim>\<open>ASSERT\<close>, or never returns.
\<close>

type_synonym u64 = "64 word"
type_synonym isize = "64 word"
type_synonym block_ptr = "nat option"

record 'a SPMC_Queue_Block =
  block_next :: block_ptr
  block_mask :: u64
  block_items :: "u64 \<Rightarrow> 'a"

type_synonym 'a memory = "'a SPMC_Queue_Block option list"

record 'a SPMC_Queue =
  pop_block :: block_ptr
  pop_tail :: u64
  pop_estimate_head :: u64
  pop_item_size :: isize
  push_block :: block_ptr
  push_estimate_tail :: u64
  push_head :: u64
  push_item_size :: isize
  push_max_capacity :: isize
  memory :: "'a memory"

datatype SPMC_Queue_State =
  SPMC_QUEUE_OK | SPMC_QUEUE_EMPTY | SPMC_QUEUE_FULL | SPMC_QUEUE_FAILED_RACE

record SPMC_Queue_Result =
  head :: u64
  tail :: u64
  state :: SPMC_Queue_State

text \<open>What one call of \<^verbatim>\<open>malloc\<close> answers: \<open>None\<close> for \<^verbatim>\<open>NULL\<close>, or the
  indeterminate content of the slots of the fresh block.\<close>

type_synonym 'a malloc_result = "(u64 \<Rightarrow> 'a) option"

definition INT64_MAX :: isize where
  "INT64_MAX = 0x7FFFFFFFFFFFFFFF"

definition UINT32_MAX :: isize where
  "UINT32_MAX = 0xFFFFFFFF"

definition load_block :: "'a memory \<Rightarrow> nat \<Rightarrow> 'a SPMC_Queue_Block option" where
  "load_block m p = (if p < length m then m ! p else None)"

section \<open>Teardown and initialisation\<close>

text \<open>The loop of \<^verbatim>\<open>spmc_queue_deinit\<close>: free every block of the chain.\<close>

function free_chain :: "'a memory \<Rightarrow> block_ptr \<Rightarrow> 'a memory option" where
  "free_chain m None = Some m"
| "free_chain m (Some p) =
     (case load_block m p of
        None \<Rightarrow> None
      | Some b \<Rightarrow> free_chain (m[p := None]) (block_next b))"
  by pat_completeness auto
termination
proof (relation "measure (\<lambda>(m, c). length (filter (\<lambda>x. x \<noteq> None) m))")
  show "wf (measure (\<lambda>(m :: 'a memory, c :: block_ptr). length (filter (\<lambda>x. x \<noteq> None) m)))"
    by simp
next
  fix m :: "'a memory" and p :: nat and b :: "'a SPMC_Queue_Block"
  assume ld: "load_block m p = Some b"
  then have p: "p < length m" and mp: "m ! p = Some b"
    by (auto simp: load_block_def split: if_splits)
  have m: "m = take p m @ Some b # drop (Suc p) m"
    using p mp by (metis id_take_nth_drop)
  have u: "m[p := None] = take p m @ None # drop (Suc p) m"
    using p by (simp add: upd_conv_take_nth_drop)
  have "length (filter (\<lambda>x. x \<noteq> None) (m[p := None]))
      < length (filter (\<lambda>x. x \<noteq> None) (take p m @ Some b # drop (Suc p) m))"
    unfolding u by simp
  then have "length (filter (\<lambda>x. x \<noteq> None) (m[p := None])) < length (filter (\<lambda>x. x \<noteq> None) m)"
    using m by simp
  then show "((m[p := None], block_next b), (m, Some p))
      \<in> measure (\<lambda>(m, c). length (filter (\<lambda>x. x \<noteq> None) m))"
    by simp
qed

text \<open>\<^verbatim>\<open>memset(queue, 0, sizeof *queue)\<close>: every field zero, every pointer \<^verbatim>\<open>NULL\<close>.\<close>

definition zeroed :: "'a memory \<Rightarrow> 'a SPMC_Queue" where
  "zeroed m = \<lparr>pop_block = None, pop_tail = 0, pop_estimate_head = 0, pop_item_size = 0,
     push_block = None, push_estimate_tail = 0, push_head = 0, push_item_size = 0,
     push_max_capacity = 0, memory = m\<rparr>"

definition spmc_queue_deinit :: "'a SPMC_Queue \<Rightarrow> 'a SPMC_Queue option" where
  "spmc_queue_deinit queue =
     (case free_chain (memory queue) (push_block queue) of
        None \<Rightarrow> None
      | Some m \<Rightarrow> Some ((zeroed m)\<lparr>pop_block := None\<rparr>))"

definition spmc_queue_init :: "'a SPMC_Queue \<Rightarrow> isize \<Rightarrow> isize \<Rightarrow> 'a SPMC_Queue option" where
  "spmc_queue_init queue item_size max_capacity_or_negative_if_infinite =
     (if \<not> (0 < sint item_size \<and> sint item_size \<le> sint UINT32_MAX) then None
      else case spmc_queue_deinit queue of
        None \<Rightarrow> None
      | Some queue \<Rightarrow>
          Some (queue\<lparr>push_max_capacity := max_capacity_or_negative_if_infinite,
                      push_item_size := item_size,
                      pop_item_size := item_size,
                      pop_block := None\<rparr>))"

section \<open>Growth\<close>

text \<open>\<^verbatim>\<open>_spmc_queue_slot\<close>: the slot number of position \<open>i\<close> in a block.\<close>

definition spmc_queue_slot :: "'a SPMC_Queue_Block \<Rightarrow> u64 \<Rightarrow> u64" where
  "spmc_queue_slot block i = i AND block_mask block"

text \<open>The loop \<^verbatim>\<open>while((isize) new_cap < to_size) new_cap *= 2;\<close> of
  \<^verbatim>\<open>_spmc_queue_reserve\<close>. Nothing bounds it: \<open>None\<close> is the run that never ends.\<close>

partial_function (option) reserve_new_cap :: "u64 \<Rightarrow> isize \<Rightarrow> u64 option" where
  "reserve_new_cap new_cap to_size =
     (if sint new_cap < sint to_size then reserve_new_cap (new_cap * 2) to_size
      else Some new_cap)"

text \<open>The copy loop \<^verbatim>\<open>for(uint64_t i = tail; (int64_t) (i - head) < 0; i++)\<close>.\<close>

function reserve_copy ::
  "'a SPMC_Queue_Block \<Rightarrow> 'a SPMC_Queue_Block \<Rightarrow> u64 \<Rightarrow> u64 \<Rightarrow> 'a SPMC_Queue_Block" where
  "reserve_copy new_block old_block i h =
     (if sint (i - h) < 0
      then reserve_copy
             (new_block\<lparr>block_items := (block_items new_block)
                (spmc_queue_slot new_block i :=
                   block_items old_block (spmc_queue_slot old_block i))\<rparr>)
             old_block (i + 1) h
      else new_block)"
  by pat_completeness auto
termination
proof (relation "measure (\<lambda>(n, ob, i, h). unat (h - i))")
  show "wf (measure (\<lambda>(n :: 'a SPMC_Queue_Block, ob :: 'a SPMC_Queue_Block, i :: u64, h :: u64).
      unat (h - i)))"
    by simp
next
  fix new_block old_block :: "'a SPMC_Queue_Block" and i h :: u64
  assume neg: "sint (i - h) < 0"
  have ne: "h - i \<noteq> 0"
    using neg by auto
  have e: "h - (i + 1) = (h - i) - 1"
    by simp
  have "unat (h - (i + 1)) = unat (h - i) - 1"
    unfolding e using ne by (rule unat_minus_one)
  moreover have "unat (h - i) \<noteq> 0"
    using ne by (simp add: unat_eq_zero)
  ultimately have "unat (h - (i + 1)) < unat (h - i)"
    by simp
  then show "((new_block\<lparr>block_items := (block_items new_block)
                (spmc_queue_slot new_block i :=
                   block_items old_block (spmc_queue_slot old_block i))\<rparr>,
               old_block, i + 1, h), (new_block, old_block, i, h))
      \<in> measure (\<lambda>(n, ob, i, h). unat (h - i))"
    by simp
qed

text \<open>\<^verbatim>\<open>old_block ? (isize) (old_block->mask + 1) : 0\<close>\<close>

definition block_cap :: "'a memory \<Rightarrow> block_ptr \<Rightarrow> isize option" where
  "block_cap m block =
     (case block of
        None \<Rightarrow> Some 0
      | Some p \<Rightarrow> (case load_block m p of None \<Rightarrow> None | Some b \<Rightarrow> Some (block_mask b + 1)))"

text \<open>\<^verbatim>\<open>_spmc_queue_reserve\<close>, from the innermost part outwards. Installing the new block:
  it gets the next free index, and both \<^verbatim>\<open>push.block\<close> and \<^verbatim>\<open>pop.block\<close> point to it.\<close>

definition reserve_install ::
  "'a SPMC_Queue \<Rightarrow> 'a SPMC_Queue_Block \<Rightarrow> (block_ptr \<times> 'a SPMC_Queue) option" where
  "reserve_install queue new_block =
     (let new_ptr = length (memory queue)
      in Some (Some new_ptr,
               queue\<lparr>memory := memory queue @ [Some new_block],
                     push_block := Some new_ptr,
                     pop_block := Some new_ptr\<rparr>))"

text \<open>The body of \<^verbatim>\<open>if(old_cap < to_size && to_size <= max_capacity)\<close>: find the new
  capacity, allocate, and when that succeeds link, copy the live range and install.\<close>

definition reserve_grow ::
  "'a malloc_result \<Rightarrow> 'a SPMC_Queue \<Rightarrow> isize \<Rightarrow> (block_ptr \<times> 'a SPMC_Queue) option" where
  "reserve_grow malloc queue to_size =
     (let old_block = push_block queue in
      case reserve_new_cap 64 to_size of
        None \<Rightarrow> None
      | Some new_cap \<Rightarrow>
         (case malloc of
            None \<Rightarrow> Some (old_block, queue)
          | Some fresh \<Rightarrow>
             (let new_block = \<lparr>block_next = old_block, block_mask = new_cap - 1,
                               block_items = fresh\<rparr>
              in case old_block of
                   None \<Rightarrow> reserve_install queue new_block
                 | Some p \<Rightarrow>
                    (case load_block (memory queue) p of
                       None \<Rightarrow> None
                     | Some ob \<Rightarrow>
                        reserve_install queue
                          (reserve_copy new_block ob (pop_tail queue) (push_head queue))))))"

definition underscore_spmc_queue_reserve ::
  "'a malloc_result \<Rightarrow> 'a SPMC_Queue \<Rightarrow> isize \<Rightarrow> (block_ptr \<times> 'a SPMC_Queue) option" where
  "underscore_spmc_queue_reserve malloc queue to_size =
     (let old_block = push_block queue in
      case block_cap (memory queue) old_block of
        None \<Rightarrow> None
      | Some old_cap \<Rightarrow>
         (let max_capacity = (if 0 \<le> sint (push_max_capacity queue)
                              then push_max_capacity queue else INT64_MAX)
          in if sint old_cap < sint to_size \<and> sint to_size \<le> sint max_capacity
             then reserve_grow malloc queue to_size
             else Some (old_block, queue)))"

definition spmc_queue_reserve ::
  "'a malloc_result \<Rightarrow> 'a SPMC_Queue \<Rightarrow> isize \<Rightarrow> 'a SPMC_Queue option" where
  "spmc_queue_reserve malloc queue to_size =
     map_option snd (underscore_spmc_queue_reserve malloc queue to_size)"

section \<open>Push\<close>

text \<open>\<^verbatim>\<open>block == NULL || (int64_t)(head - tail) > (int64_t) block->mask\<close>\<close>

definition push_no_room :: "'a memory \<Rightarrow> block_ptr \<Rightarrow> u64 \<Rightarrow> u64 \<Rightarrow> bool option" where
  "push_no_room m block h t =
     (case block of
        None \<Rightarrow> Some True
      | Some p \<Rightarrow>
         (case load_block m p of
            None \<Rightarrow> None
          | Some b \<Rightarrow> Some (sint (h - t) > sint (block_mask b))))"

text \<open>The end of \<^verbatim>\<open>spmc_queue_result_push_st\<close>, reached from each branch that found or
  made room: write the slot of \<open>head\<close>, publish \<open>head + 1\<close>, answer OK.\<close>

definition push_st_store ::
  "'a SPMC_Queue \<Rightarrow> block_ptr \<Rightarrow> u64 \<Rightarrow> u64 \<Rightarrow> 'a \<Rightarrow> (SPMC_Queue_Result \<times> 'a SPMC_Queue) option" where
  "push_st_store q block h t item =
     (case block of
        None \<Rightarrow> None
      | Some p \<Rightarrow>
         (case load_block (memory q) p of
            None \<Rightarrow> None
          | Some b \<Rightarrow>
             (let slot = spmc_queue_slot b h;
                  b' = b\<lparr>block_items := (block_items b)(slot := item)\<rparr>
              in Some (\<lparr>head = h, tail = t, state = SPMC_QUEUE_OK\<rparr>,
                       q\<lparr>memory := (memory q)[p := Some b'], push_head := h + 1\<rparr>))))"

definition spmc_queue_result_push_st ::
  "'a malloc_result \<Rightarrow> 'a SPMC_Queue \<Rightarrow> 'a \<Rightarrow> isize \<Rightarrow> (SPMC_Queue_Result \<times> 'a SPMC_Queue) option" where
  "spmc_queue_result_push_st malloc q item item_size =
     (if push_item_size q \<noteq> item_size then None
      else
        let block = push_block q;
            h = push_head q;
            t = push_estimate_tail q
        in case push_no_room (memory q) block h t of
             None \<Rightarrow> None
           | Some False \<Rightarrow> push_st_store q block h t item
           | Some True \<Rightarrow>
              (let t = pop_tail q;
                   q = q\<lparr>push_estimate_tail := t\<rparr>
               in case push_no_room (memory q) block h t of
                    None \<Rightarrow> None
                  | Some False \<Rightarrow> push_st_store q block h t item
                  | Some True \<Rightarrow>
                     (case underscore_spmc_queue_reserve malloc q (h - t + 1) of
                        None \<Rightarrow> None
                      | Some (new_block, q) \<Rightarrow>
                         if new_block = block
                         then Some (\<lparr>head = h, tail = t, state = SPMC_QUEUE_FULL\<rparr>, q)
                         else push_st_store q new_block h t item)))"

section \<open>Pop\<close>

text \<open>The caller's buffer \<^verbatim>\<open>item\<close> is \<open>None\<close> for a \<^verbatim>\<open>NULL\<close> pointer and \<open>Some v\<close>
  for a buffer that holds \<open>v\<close>; a pop returns the buffer as it leaves it.
  \<open>pop_copy\<close> is \<^verbatim>\<open>if(item) memcpy(item, _spmc_queue_slot(block, tail, item_size), item_size)\<close>.\<close>

definition pop_copy :: "'a memory \<Rightarrow> block_ptr \<Rightarrow> u64 \<Rightarrow> 'a option \<Rightarrow> 'a option option" where
  "pop_copy m block t item =
     (case item of
        None \<Rightarrow> Some None
      | Some old \<Rightarrow>
         (case block of
            None \<Rightarrow> None
          | Some p \<Rightarrow>
             (case load_block m p of
                None \<Rightarrow> None
              | Some b \<Rightarrow> Some (Some (block_items b (spmc_queue_slot b t))))))"

text \<open>The end of \<^verbatim>\<open>spmc_queue_result_pop_st\<close>, reached when the queue is not empty.\<close>

definition pop_st_take ::
  "'a SPMC_Queue \<Rightarrow> SPMC_Queue_Result \<Rightarrow> u64 \<Rightarrow> 'a option \<Rightarrow>
     (SPMC_Queue_Result \<times> 'a option \<times> 'a SPMC_Queue) option" where
  "pop_st_take q out t item =
     (let block = pop_block q in
      case pop_copy (memory q) block t item of
        None \<Rightarrow> None
      | Some item' \<Rightarrow>
         Some (out\<lparr>state := SPMC_QUEUE_OK\<rparr>, item', q\<lparr>pop_tail := t + 1\<rparr>))"

definition spmc_queue_result_pop_st ::
  "'a SPMC_Queue \<Rightarrow> 'a option \<Rightarrow> isize \<Rightarrow>
     (SPMC_Queue_Result \<times> 'a option \<times> 'a SPMC_Queue) option" where
  "spmc_queue_result_pop_st q item item_size =
     (if pop_item_size q \<noteq> item_size then None
      else
        let t = pop_tail q;
            h = pop_estimate_head q;
            out = \<lparr>head = h, tail = t, state = SPMC_QUEUE_EMPTY\<rparr>
        in if sint (h - t) \<le> 0 then
             (let h = push_head q;
                  q = q\<lparr>pop_estimate_head := h\<rparr>;
                  out = out\<lparr>head := h\<rparr>
              in if sint (h - t) \<le> 0 then Some (out, item, q)
                 else pop_st_take q out t item)
           else pop_st_take q out t item)"

text \<open>In \<^verbatim>\<open>spmc_queue_result_pop_weak\<close> other threads may run between the copy and the
  compare-and-swap on \<^verbatim>\<open>pop.tail\<close>. What they do to the queue in between is the
  argument \<open>others\<close>; a sequential run has \<open>others = id\<close>, and then the swap succeeds.\<close>

definition pop_weak_take ::
  "('a SPMC_Queue \<Rightarrow> 'a SPMC_Queue) \<Rightarrow> 'a SPMC_Queue \<Rightarrow> SPMC_Queue_Result \<Rightarrow> u64 \<Rightarrow>
     'a option \<Rightarrow> (SPMC_Queue_Result \<times> 'a option \<times> 'a SPMC_Queue) option" where
  "pop_weak_take others q out t item =
     (let block = pop_block q in
      case pop_copy (memory q) block t item of
        None \<Rightarrow> None
      | Some item' \<Rightarrow>
         (let q = others q in
          if pop_tail q \<noteq> t
          then Some (out\<lparr>state := SPMC_QUEUE_FAILED_RACE\<rparr>, item', q)
          else Some (out\<lparr>state := SPMC_QUEUE_OK\<rparr>, item', q\<lparr>pop_tail := t + 1\<rparr>)))"

definition spmc_queue_result_pop_weak ::
  "('a SPMC_Queue \<Rightarrow> 'a SPMC_Queue) \<Rightarrow> 'a SPMC_Queue \<Rightarrow> 'a option \<Rightarrow> isize \<Rightarrow>
     (SPMC_Queue_Result \<times> 'a option \<times> 'a SPMC_Queue) option" where
  "spmc_queue_result_pop_weak others q item item_size =
     (if pop_item_size q \<noteq> item_size then None
      else
        let t = pop_tail q;
            h = pop_estimate_head q;
            out = \<lparr>head = h, tail = t, state = SPMC_QUEUE_EMPTY\<rparr>
        in if sint (t - h) \<ge> 0 then
             (let h = push_head q;
                  q = q\<lparr>pop_estimate_head := h\<rparr>;
                  out = out\<lparr>head := h\<rparr>
              in if sint (t - h) \<ge> 0 then Some (out, item, q)
                 else pop_weak_take others q out t item)
           else pop_weak_take others q out t item)"

text \<open>\<^verbatim>\<open>spmc_queue_result_pop\<close> retries while the weak pop loses the race. The list gives
  what the other threads do during each attempt, and nothing once it is used up.\<close>

partial_function (option) spmc_queue_result_pop ::
  "('a SPMC_Queue \<Rightarrow> 'a SPMC_Queue) list \<Rightarrow> 'a SPMC_Queue \<Rightarrow> 'a option \<Rightarrow> isize \<Rightarrow>
     (SPMC_Queue_Result \<times> 'a option \<times> 'a SPMC_Queue) option" where
  "spmc_queue_result_pop others q item item_size =
     (case spmc_queue_result_pop_weak (case others of [] \<Rightarrow> id | f # _ \<Rightarrow> f) q item item_size of
        None \<Rightarrow> None
      | Some (result, item', q') \<Rightarrow>
          if state result \<noteq> SPMC_QUEUE_FAILED_RACE then Some (result, item', q')
          else spmc_queue_result_pop (tl others) q' item' item_size)"

definition spmc_queue_push_st ::
  "'a malloc_result \<Rightarrow> 'a SPMC_Queue \<Rightarrow> 'a \<Rightarrow> isize \<Rightarrow> (bool \<times> 'a SPMC_Queue) option" where
  "spmc_queue_push_st malloc q item item_size =
     map_option (\<lambda>(r, q'). (state r = SPMC_QUEUE_OK, q'))
       (spmc_queue_result_push_st malloc q item item_size)"

definition spmc_queue_pop_st ::
  "'a SPMC_Queue \<Rightarrow> 'a option \<Rightarrow> isize \<Rightarrow> (bool \<times> 'a option \<times> 'a SPMC_Queue) option" where
  "spmc_queue_pop_st q items item_size =
     map_option (\<lambda>(r, i, q'). (state r = SPMC_QUEUE_OK, i, q'))
       (spmc_queue_result_pop_st q items item_size)"

definition spmc_queue_pop ::
  "'a SPMC_Queue \<Rightarrow> 'a option \<Rightarrow> isize \<Rightarrow> (bool \<times> 'a option \<times> 'a SPMC_Queue) option" where
  "spmc_queue_pop q item item_size =
     map_option (\<lambda>(r, i, q'). (state r = SPMC_QUEUE_OK, i, q'))
       (spmc_queue_result_pop [] q item item_size)"

section \<open>Capacity and count\<close>

definition spmc_queue_capacity :: "'a SPMC_Queue \<Rightarrow> isize option" where
  "spmc_queue_capacity q =
     (case pop_block q of
        None \<Rightarrow> Some 0
      | Some p \<Rightarrow> (case load_block (memory q) p of None \<Rightarrow> None | Some b \<Rightarrow> Some (block_mask b + 1)))"

text \<open>The loop of \<^verbatim>\<open>spmc_queue_count\<close> in a run where no other thread moves the tail
  between two loads: it reads the head, reads the tail, and leaves once the tail is the
  one it read before.\<close>

function count_loop :: "'a SPMC_Queue \<Rightarrow> u64 \<Rightarrow> u64 \<times> u64" where
  "count_loop q t0 =
     (let h = push_head q;
          t = pop_tail q
      in if t = t0 then (h, t) else count_loop q t)"
  by pat_completeness auto
termination
  by (relation "measure (\<lambda>(q, t0). if pop_tail q = t0 then 0 else 1)") auto

definition spmc_queue_count :: "'a SPMC_Queue \<Rightarrow> isize" where
  "spmc_queue_count q = (case count_loop q (pop_tail q) of (h, t) \<Rightarrow> h - t)"

definition spmc_queue_count_upper :: "'a SPMC_Queue \<Rightarrow> isize" where
  "spmc_queue_count_upper q = (let t = pop_tail q; h = push_head q in h - t)"

definition spmc_queue_count_lower :: "'a SPMC_Queue \<Rightarrow> isize" where
  "spmc_queue_count_lower q = (let h = push_head q; t = pop_tail q in h - t)"

text \<open>A fresh block whose bytes all happen to be zero, for the concrete runs below.\<close>

definition zero_filled :: "u64 \<Rightarrow> u64" where
  "zero_filled i = 0"

section \<open>Sequential runs\<close>

text \<open>One call of the interface by the only running thread, and what the caller saw of it.
  The caller passes the item size the queue was configured with.\<close>

datatype 'a queue_op =
    Op_init isize isize
  | Op_reserve "'a malloc_result" isize
  | Op_push_st "'a malloc_result" 'a
  | Op_pop_st "'a option"
  | Op_pop_weak "'a option"
  | Op_pop "'a option"

datatype 'a event =
    Ev_init
  | Ev_reserve
  | Ev_push 'a SPMC_Queue_State
  | Ev_pop SPMC_Queue_State "'a option"

fun step :: "'a queue_op \<Rightarrow> 'a SPMC_Queue \<Rightarrow> ('a event \<times> 'a SPMC_Queue) option" where
  "step (Op_init item_size max_capacity) q =
     map_option (\<lambda>q'. (Ev_init, q')) (spmc_queue_init q item_size max_capacity)"
| "step (Op_reserve malloc to_size) q =
     map_option (\<lambda>q'. (Ev_reserve, q')) (spmc_queue_reserve malloc q to_size)"
| "step (Op_push_st malloc item) q =
     map_option (\<lambda>(r, q'). (Ev_push item (state r), q'))
       (spmc_queue_result_push_st malloc q item (push_item_size q))"
| "step (Op_pop_st item) q =
     map_option (\<lambda>(r, item', q'). (Ev_pop (state r) item', q'))
       (spmc_queue_result_pop_st q item (pop_item_size q))"
| "step (Op_pop_weak item) q =
     map_option (\<lambda>(r, item', q'). (Ev_pop (state r) item', q'))
       (spmc_queue_result_pop_weak id q item (pop_item_size q))"
| "step (Op_pop item) q =
     map_option (\<lambda>(r, item', q'). (Ev_pop (state r) item', q'))
       (spmc_queue_result_pop [] q item (pop_item_size q))"

fun run :: "'a queue_op list \<Rightarrow> 'a SPMC_Queue \<Rightarrow> ('a event list \<times> 'a SPMC_Queue) option" where
  "run [] q = Some ([], q)"
| "run (x # xs) q =
     (case step x q of
        None \<Rightarrow> None
      | Some (e, q') \<Rightarrow>
         (case run xs q' of None \<Rightarrow> None | Some (es, q'') \<Rightarrow> Some (e # es, q'')))"

text \<open>The number of items logically present after a history: the pushes that answered OK
  minus the pops that answered OK, since the last initialisation.\<close>

fun count_event :: "int \<Rightarrow> 'a event \<Rightarrow> int" where
  "count_event n Ev_init = 0"
| "count_event n Ev_reserve = n"
| "count_event n (Ev_push x s) = (if s = SPMC_QUEUE_OK then n + 1 else n)"
| "count_event n (Ev_pop s x) = (if s = SPMC_QUEUE_OK then n - 1 else n)"

definition items_present :: "'a event list \<Rightarrow> int" where
  "items_present es = foldl count_event 0 es"

text \<open>The queue of the specification is a list of items, oldest first: a push that answers
  OK appends its item, a pop that answers OK removes the first item, an initialisation
  empties the list, and nothing else changes it.\<close>

fun apply_event :: "'a list \<Rightarrow> 'a event \<Rightarrow> 'a list" where
  "apply_event xs Ev_init = []"
| "apply_event xs Ev_reserve = xs"
| "apply_event xs (Ev_push x s) = (if s = SPMC_QUEUE_OK then xs @ [x] else xs)"
| "apply_event xs (Ev_pop s y) = (if s = SPMC_QUEUE_OK then tl xs else xs)"

text \<open>What the specification allows a call to answer on the list \<open>xs\<close>: a push answers
  OK or FULL; a pop answers OK on a list that is not empty, and a buffer it was given then
  holds the first item; a pop answers EMPTY on the empty list only.\<close>

fun event_allowed :: "'a list \<Rightarrow> 'a event \<Rightarrow> bool" where
  "event_allowed xs Ev_init = True"
| "event_allowed xs Ev_reserve = True"
| "event_allowed xs (Ev_push x s) = (s = SPMC_QUEUE_OK \<or> s = SPMC_QUEUE_FULL)"
| "event_allowed xs (Ev_pop s y) =
     (if s = SPMC_QUEUE_OK then xs \<noteq> [] \<and> (y = None \<or> y = Some (hd xs))
      else s = SPMC_QUEUE_EMPTY \<and> xs = [])"

fun is_init :: "'a queue_op \<Rightarrow> bool" where
  "is_init (Op_init item_size max_capacity) = True"
| "is_init (Op_reserve malloc to_size) = False"
| "is_init (Op_push_st malloc item) = False"
| "is_init (Op_pop_st item) = False"
| "is_init (Op_pop_weak item) = False"
| "is_init (Op_pop item) = False"

text \<open>The items of the queue, oldest first, read from the published block.\<close>

definition queue_items :: "'a SPMC_Queue \<Rightarrow> 'a list" where
  "queue_items q =
     (case pop_block q of
        None \<Rightarrow> []
      | Some p \<Rightarrow>
         (case load_block (memory q) p of
            None \<Rightarrow> []
          | Some b \<Rightarrow>
             map (\<lambda>i. block_items b (spmc_queue_slot b (pop_tail q + of_nat i)))
               [0..<unat (push_head q - pop_tail q)]))"

text \<open>The capacity of the producer's block as a number, 0 without a block.\<close>

definition cap_of :: "'a SPMC_Queue \<Rightarrow> nat" where
  "cap_of q =
     (case push_block q of
        None \<Rightarrow> 0
      | Some p \<Rightarrow>
         (case load_block (memory q) p of None \<Rightarrow> 0 | Some b \<Rightarrow> unat (block_mask b) + 1))"

text \<open>The shape of the memory in every state a sequential run reaches: the freed blocks
  come first, the blocks in use follow, each linked to the one before it, each of a
  capacity \<open>2 ^ k\<close> with \<open>6 \<le> k \<le> 62\<close>, and the current block is the last one.\<close>

definition live_chain :: "'a memory \<Rightarrow> block_ptr \<Rightarrow> bool" where
  "live_chain m cur \<longleftrightarrow>
     (\<exists>f\<in>{0..length m}.
        (\<forall>p\<in>{0..<f}. m ! p = None) \<and>
        (\<forall>p\<in>{f..<length m}.
           case m ! p of
             None \<Rightarrow> False
           | Some b \<Rightarrow>
              block_next b = (if p = f then None else Some (p - 1)) \<and>
              (\<exists>k\<in>{6..62}. block_mask b = mask k)) \<and>
        cur = (if f = length m then None else Some (length m - 1)))"

text \<open>The invariant of sequential runs. Going round the 64-bit counters, the producer's
  estimate of the tail, the tail, the consumers' estimate of the head and the head follow
  each other within one capacity.\<close>

definition queue_inv :: "'a SPMC_Queue \<Rightarrow> bool" where
  "queue_inv q \<longleftrightarrow>
     pop_block q = push_block q \<and>
     pop_item_size q = push_item_size q \<and>
     live_chain (memory q) (push_block q) \<and>
     unat (pop_tail q - push_estimate_tail q) + unat (pop_estimate_head q - pop_tail q)
       + unat (push_head q - pop_estimate_head q) \<le> cap_of q"

text \<open>The test of \<^verbatim>\<open>_spmc_queue_reserve\<close> on a state that satisfies the invariant.\<close>

definition reserve_allowed :: "'a SPMC_Queue \<Rightarrow> isize \<Rightarrow> bool" where
  "reserve_allowed q to_size \<longleftrightarrow>
     int (cap_of q) < sint to_size \<and>
     sint to_size \<le> sint (if 0 \<le> sint (push_max_capacity q) then push_max_capacity q
                          else INT64_MAX)"

text \<open>With a ceiling, a block exists only under a positive ceiling, and a block larger
  than 64 slots is less than twice the ceiling.\<close>

definition ceiling_inv :: "'a SPMC_Queue \<Rightarrow> bool" where
  "ceiling_inv q \<longleftrightarrow>
     (0 \<le> sint (push_max_capacity q) \<longrightarrow>
        cap_of q = 0 \<or>
        (0 < sint (push_max_capacity q) \<and>
         (cap_of q \<le> 64 \<or> int (cap_of q) < 2 * sint (push_max_capacity q))))"

section \<open>A race between two consumers\<close>

text \<open>What one other consumer does when it wins the race: it advances the shared tail
  between this thread's copy and its compare-and-swap.\<close>

definition other_consumer_pops :: "'a SPMC_Queue \<Rightarrow> 'a SPMC_Queue" where
  "other_consumer_pops q = q\<lparr>pop_tail := pop_tail q + 1\<rparr>"

text \<open>The queue after \<^verbatim>\<open>init(8, -1)\<close> and one push of the item 5.\<close>

definition race_queue :: "u64 SPMC_Queue" where
  "race_queue =
     \<lparr>pop_block = Some 0, pop_tail = 0, pop_estimate_head = 0, pop_item_size = 8,
      push_block = Some 0, push_estimate_tail = 0, push_head = 1, push_item_size = 8,
      push_max_capacity = - 1,
      memory = [Some \<lparr>block_next = None, block_mask = 63,
                       block_items = zero_filled(0 := 5)\<rparr>]\<rparr>"

text \<open>The loops are unfolded on demand only.\<close>

declare reserve_copy.simps [simp del]
declare count_loop.simps [simp del]
declare free_chain.simps [simp del]

section \<open>Arithmetic on the 64-bit counters\<close>
lemma sint_unat_small: "unat (x :: 64 word) < 2 ^ 63 \<Longrightarrow> sint x = int (unat x)"
proof -
  assume a: "unat x < 2 ^ 63"
  have "int (unat x) < int (2 ^ 63)" using a by (simp only: of_nat_less_iff)
  then have u: "uint x < 2 ^ 63" by simp
  have "(0::int) \<le> 2 ^ 63" by simp
  then have "- (2 ^ 63) \<le> (0::int)" by linarith
  moreover have "0 \<le> uint x" by simp
  ultimately have l: "- (2 ^ 63) \<le> uint x" by linarith
  have "signed_take_bit 63 (uint x) = uint x"
    using l u by (rule signed_take_bit_int_eq_self)
  then show ?thesis by (simp add: sint_uint)
qed

lemma dist_suc_left: "(a :: 64 word) \<noteq> b \<Longrightarrow> unat (a - (b + 1)) = unat (a - b) - 1"
proof -
  assume "a \<noteq> b"
  then have ne: "a - b \<noteq> 0" by simp
  have e: "a - (b + 1) = (a - b) - 1" by simp
  show ?thesis unfolding e using ne by (rule unat_minus_one)
qed

lemma len64: "(2::nat) ^ LENGTH(64) = 2 ^ 64" by simp

lemma unat_add_small: "unat (x :: 64 word) + unat y < 2 ^ 64 \<Longrightarrow> unat (x + y) = unat x + unat y"
  using unat_add_lem [of x y] unfolding len64 by blast


lemma dist_suc_right: "unat ((a :: 64 word) - b) + 1 < 2 ^ 64 \<Longrightarrow> unat ((a + 1) - b) = unat (a - b) + 1"
proof -
  assume a: "unat (a - b) + 1 < 2 ^ 64"
  have e: "(a + 1) - b = (a - b) + 1" by simp
  have u1: "unat (1 :: 64 word) = 1" by simp
  have "unat (a - b) + unat (1 :: 64 word) < 2 ^ 64" unfolding u1 using a .
  then have "unat ((a - b) + 1) = unat (a - b) + unat (1 :: 64 word)"
    by (rule unat_add_small)
  then show ?thesis unfolding e u1 .
qed



lemma dist_split: "unat ((b :: 64 word) - a) + unat (c - b) < 2 ^ 64 \<Longrightarrow> unat (c - a) = unat (b - a) + unat (c - b)"
proof -
  assume a: "unat (b - a) + unat (c - b) < 2 ^ 64"
  have e: "c - a = (b - a) + (c - b)" by simp
  show ?thesis unfolding e using a by (rule unat_add_small)
qed



lemma unat_of_nat_small: "n < 2 ^ 64 \<Longrightarrow> unat (of_nat n :: 64 word) = n"
proof -
  assume "n < 2 ^ 64"
  then have "n mod 2 ^ LENGTH(64) = n" unfolding len64 by (rule mod_less)
  then show ?thesis by (simp only: unat_of_nat)
qed



lemma pow_le_64: "k \<le> 64 \<Longrightarrow> (2::nat) ^ k \<le> 2 ^ 64"
  by (rule power_increasing) simp_all




lemma unat_and_mask_mod: "unat ((w :: 64 word) AND mask k) = unat w mod 2 ^ k"
  by (metis take_bit_eq_mask take_bit_eq_mod unsigned_take_bit_eq)

lemma mod_add_cancel_le:
  assumes "((a::nat) + n1) mod m = (a + n2) mod m" "n1 \<le> n2" "n2 < m"
  shows "n1 = n2"
proof -
  have "a + n1 \<le> a + n2" using assms(2) by simp
  then have "m dvd (a + n2) - (a + n1)"
    using assms(1) by (simp only: mod_eq_dvd_iff_nat [symmetric])
  then have d: "m dvd n2 - n1" by simp
  have "n2 - n1 < m" using assms(3) by simp
  then have "n2 - n1 = 0" using d by (meson dvd_imp_le not_less zero_less_iff_neq_zero)
  then show ?thesis using assms(2) by simp
qed

lemma mod_add_cancel_nat:
  assumes "((a::nat) + n1) mod m = (a + n2) mod m" "n1 < m" "n2 < m"
  shows "n1 = n2"
proof (cases "n1 \<le> n2")
  case True
  then show ?thesis using assms mod_add_cancel_le by blast
next
  case False
  then have "n2 \<le> n1" by simp
  then have "n2 = n1" using assms(1) [symmetric] assms(2) mod_add_cancel_le by blast
  then show ?thesis by simp
qed

lemma unat_slot:
  assumes "k \<le> 64"
  shows "unat (((x :: 64 word) + of_nat n) AND mask k) = (unat x + n) mod 2 ^ k"
proof -
  have d: "(2::nat) ^ k dvd 2 ^ 64" using assms by (rule le_imp_power_dvd)
  have "unat (x + of_nat n) = (unat x + unat (of_nat n :: 64 word)) mod 2 ^ LENGTH(64)"
    by (rule unat_word_ariths(1))
  also have "\<dots> = (unat x + n mod 2 ^ 64) mod 2 ^ 64"
    unfolding len64 by (simp only: unat_of_nat len64)
  also have "\<dots> = (unat x + n) mod 2 ^ 64"
    by (rule mod_add_right_eq)
  finally have "unat (x + of_nat n) mod 2 ^ k = (unat x + n) mod 2 ^ 64 mod 2 ^ k"
    by (rule arg_cong)
  also have "\<dots> = (unat x + n) mod 2 ^ k"
    using d by (rule mod_mod_cancel)
  finally show ?thesis by (simp only: unat_and_mask_mod)
qed

lemma slot_neq: 
  assumes "k \<le> 64" "n1 < 2 ^ k" "n2 < 2 ^ k" "n1 \<noteq> n2"
  shows "((x :: 64 word) + of_nat n1) AND mask k \<noteq> (x + of_nat n2) AND mask k"
proof
  assume e: "(x + of_nat n1) AND mask k = (x + of_nat n2) AND mask k"
  then have "unat ((x + of_nat n1) AND mask k) = unat ((x + of_nat n2) AND mask k)"
    by (rule arg_cong)
  then have "(unat x + n1) mod 2 ^ k = (unat x + n2) mod 2 ^ k"
    by (simp only: unat_slot [OF assms(1)])
  then have "n1 = n2" using assms(2) assms(3) by (rule mod_add_cancel_nat)
  then show False using assms(4) by simp
qed

section \<open>Powers of two and the capacity loop\<close>
lemma pow_lt_64: "k < 64 \<Longrightarrow> (2::nat) ^ k < 2 ^ 64"
  by (rule power_strict_increasing) simp_all

lemma pow_lt_63: "k < 63 \<Longrightarrow> (2::nat) ^ k < 2 ^ 63"
  by (rule power_strict_increasing) simp_all

lemma unat_pow2: "k < 64 \<Longrightarrow> unat (2 ^ k :: 64 word) = 2 ^ k"
proof -
  assume k: "k < 64"
  have "(2 ^ k :: 64 word) = of_nat (2 ^ k)" by simp
  then have "unat (2 ^ k :: 64 word) = unat (of_nat (2 ^ k) :: 64 word)" by (rule arg_cong)
  also have "\<dots> = 2 ^ k" using pow_lt_64 [OF k] by (rule unat_of_nat_small)
  finally show ?thesis .
qed

lemma sint_pow2: "k < 63 \<Longrightarrow> sint (2 ^ k :: 64 word) = 2 ^ k"
proof -
  assume k: "k < 63"
  then have k': "k < 64" by simp
  have "unat (2 ^ k :: 64 word) < 2 ^ 63"
    unfolding unat_pow2 [OF k'] using k by (rule pow_lt_63)
  then have "sint (2 ^ k :: 64 word) = int (unat (2 ^ k :: 64 word))"
    by (rule sint_unat_small)
  then show ?thesis unfolding unat_pow2 [OF k'] by simp
qed

lemma mask_plus_1: "(mask k :: 64 word) + 1 = 2 ^ k"
  by (rule inc_mask_eq_exp)

lemma unat_mask64: "k < 64 \<Longrightarrow> unat (mask k :: 64 word) + 1 = 2 ^ k"
proof -
  assume k: "k < 64"
  have ne: "(2 ^ k :: 64 word) \<noteq> 0"
  proof
    assume "(2 ^ k :: 64 word) = 0"
    then have "unat (2 ^ k :: 64 word) = unat (0 :: 64 word)" by (rule arg_cong)
    then show False unfolding unat_pow2 [OF k] by simp
  qed
  have "(mask k :: 64 word) = 2 ^ k - 1" by (simp only: mask_plus_1 [symmetric] add_diff_cancel_right')
  then have "unat (mask k :: 64 word) = unat (2 ^ k - 1 :: 64 word)" by (rule arg_cong)
  also have "\<dots> = unat (2 ^ k :: 64 word) - 1" using ne by (rule unat_minus_one)
  finally have "unat (mask k :: 64 word) = 2 ^ k - 1" unfolding unat_pow2 [OF k] .
  then show ?thesis by simp
qed

lemma sint_mask64: "k < 63 \<Longrightarrow> sint (mask k :: 64 word) = 2 ^ k - 1"
proof -
  assume k: "k < 63"
  then have k': "k < 64" by simp
  have u: "unat (mask k :: 64 word) = 2 ^ k - 1" using unat_mask64 [OF k'] by simp
  have "unat (mask k :: 64 word) < 2 ^ 63"
    using pow_lt_63 [OF k] unfolding u by simp
  then have "sint (mask k :: 64 word) = int (unat (mask k :: 64 word))"
    by (rule sint_unat_small)
  then show ?thesis unfolding u by (simp add: of_nat_diff)
qed

lemma new_cap_from:
  assumes "sint to_size \<le> 2 ^ 62"
  shows "k \<le> 62 \<Longrightarrow> n = 62 - k \<Longrightarrow>
     \<exists>j. k \<le> j \<and> j \<le> 62 \<and> reserve_new_cap (2 ^ k) to_size = Some (2 ^ j) \<and>
         sint to_size \<le> 2 ^ j \<and> (j = k \<or> 2 ^ (j - 1) < sint to_size)"
proof (induction n arbitrary: k)
  case 0
  then have k: "k = 62" by simp
  have "sint (2 ^ 62 :: 64 word) = 2 ^ 62" by (rule sint_pow2) simp
  then have "\<not> sint (2 ^ k :: 64 word) < sint to_size" using assms k by simp
  then have "reserve_new_cap (2 ^ k) to_size = Some (2 ^ k)"
    by (subst reserve_new_cap.simps) simp
  then show ?case using assms k by auto
next
  case (Suc n)
  then have k: "k < 62" by simp
  then have s: "sint (2 ^ k :: 64 word) = 2 ^ k" by (intro sint_pow2) simp
  show ?case
  proof (cases "sint (2 ^ k :: 64 word) < sint to_size")
    case True
    have "Suc k \<le> 62" "n = 62 - Suc k" using Suc.prems by simp_all
    from Suc.IH [OF this] obtain j where j: "Suc k \<le> j" "j \<le> 62"
      "reserve_new_cap (2 ^ Suc k) to_size = Some (2 ^ j)" "sint to_size \<le> 2 ^ j"
      "j = Suc k \<or> 2 ^ (j - 1) < sint to_size" by blast
    have "reserve_new_cap (2 ^ k) to_size = reserve_new_cap (2 ^ k * 2) to_size"
      using True by (subst reserve_new_cap.simps) simp
    then have r: "reserve_new_cap (2 ^ k) to_size = Some (2 ^ j)"
      using j(3) by (simp add: mult.commute)
    have "2 ^ (j - 1) < sint to_size"
    proof (cases "j = Suc k")
      case True
      then show ?thesis using \<open>sint (2 ^ k :: 64 word) < sint to_size\<close> s by simp
    next
      case False
      then show ?thesis using j(5) by simp
    qed
    then show ?thesis using j r by (intro exI [of _ j]) auto
  next
    case False
    then have "reserve_new_cap (2 ^ k) to_size = Some (2 ^ k)"
      by (subst reserve_new_cap.simps) simp
    then show ?thesis using False s Suc.prems by (intro exI [of _ k]) auto
  qed
qed

lemma w64: "(64 :: 64 word) = 2 ^ 6" by simp

lemma new_cap_64:
  assumes "sint to_size \<le> 2 ^ 62"
  shows "\<exists>j. 6 \<le> j \<and> j \<le> 62 \<and> reserve_new_cap 64 to_size = Some (2 ^ j) \<and>
         sint to_size \<le> 2 ^ j \<and> (j = 6 \<or> 2 ^ (j - 1) < sint to_size)"
  unfolding w64 using new_cap_from [OF assms, of 6 56] by simp

lemma sint_pow63: "sint (2 ^ 63 :: 64 word) < 0"
  by simp

lemma pow64_zero: "(2 ^ 64 :: 64 word) = 0"
  by simp

lemma le63_cases: "k \<le> (63::nat) \<Longrightarrow> k \<le> 62 \<or> k = 63"
  by arith

lemma new_cap_diverges_step:
  assumes big: "2 ^ 62 < sint (t :: 64 word)" and c: "(c :: 64 word) = 0 \<or> (\<exists>k\<le>63. c = 2 ^ k)"
  shows "sint c < sint t \<and> (c * 2 = 0 \<or> (\<exists>k\<le>63. c * 2 = 2 ^ k))"
proof -
  from c consider "c = 0" | k where "k \<le> 62" "c = 2 ^ k" | "c = 2 ^ 63"
    using le63_cases by blast
  then show ?thesis
  proof cases
    case 1
    moreover have "(0::int) < 2 ^ 62" by simp
    ultimately show ?thesis using big by simp
  next
    case 2
    have "k < 63" using 2(1) by simp
    then have "sint (2 ^ k :: 64 word) = 2 ^ k" by (rule sint_pow2)
    then have "sint c = 2 ^ k" using 2(2) by simp
    moreover have "(2::int) ^ k \<le> 2 ^ 62" using 2(1) by (intro power_increasing) simp_all
    ultimately have "sint c < sint t" using big by linarith
    moreover have "c * 2 = 2 ^ Suc k" using 2(2) by simp
    then have "\<exists>k\<le>63. c * 2 = 2 ^ k" using 2(1) by (intro exI [of _ "Suc k"]) simp
    ultimately show ?thesis by blast
  next
    case 3
    then have "sint c < 0" using sint_pow63 by simp
    moreover have "(0::int) < 2 ^ 62" by simp
    ultimately have "sint c < sint t" using big by linarith
    moreover have "c * 2 = 2 ^ 64" using 3 by simp
    then have "c * 2 = 0" using pow64_zero by simp
    ultimately show ?thesis by blast
  qed
qed

lemma new_cap_diverges_aux:
  "reserve_new_cap c t = Some y \<Longrightarrow> \<not> (2 ^ 62 < sint t \<and> (c = 0 \<or> (\<exists>k\<le>63. c = 2 ^ k)))"
proof (rule reserve_new_cap.raw_induct
    [where P = "\<lambda>c t y. \<not> (2 ^ 62 < sint t \<and> (c = 0 \<or> (\<exists>k\<le>63. c = 2 ^ k)))"])
  fix f :: "64 word \<Rightarrow> 64 word \<Rightarrow> 64 word option" and c t y
  assume ih: "\<And>c t y. f c t = Some y \<Longrightarrow> \<not> (2 ^ 62 < sint t \<and> (c = 0 \<or> (\<exists>k\<le>63. c = 2 ^ k)))"
    and body: "(if sint c < sint t then f (c * 2) t else Some c) = Some y"
  show "\<not> (2 ^ 62 < sint t \<and> (c = 0 \<or> (\<exists>k\<le>63. c = 2 ^ k)))"
  proof
    assume a: "2 ^ 62 < sint t \<and> (c = 0 \<or> (\<exists>k\<le>63. c = 2 ^ k))"
    then have s: "sint c < sint t \<and> (c * 2 = 0 \<or> (\<exists>k\<le>63. c * 2 = 2 ^ k))"
      using new_cap_diverges_step by blast
    then have "f (c * 2) t = Some y" using body by simp
    from ih [OF this] show False using a s by blast
  qed
qed

lemma new_cap_diverges: "2 ^ 62 < sint to_size \<Longrightarrow> reserve_new_cap 64 to_size = None"
proof (rule ccontr)
  assume t: "2 ^ 62 < sint to_size" and "reserve_new_cap 64 to_size \<noteq> None"
  then obtain y where "reserve_new_cap 64 to_size = Some y" by auto
  moreover have "(64 :: 64 word) = 0 \<or> (\<exists>k\<le>63. (64 :: 64 word) = 2 ^ k)"
    using w64 by (intro disjI2 exI [of _ 6]) simp
  ultimately show False using t new_cap_diverges_aux [of 64 to_size y] by blast
qed

section \<open>The copy loop\<close>
lemma sint_neg_dist:
  assumes "unat ((h :: 64 word) - i) < 2 ^ 63"
  shows "sint (i - h) = - int (unat (h - i))"
proof -
  have s: "sint (h - i) = int (unat (h - i))" using assms by (rule sint_unat_small)
  have "int (unat (h - i)) < int (2 ^ 63)" using assms by (simp only: of_nat_less_iff)
  then have u: "int (unat (h - i)) < 2 ^ 63" by simp
  have "- int (unat (h - i)) \<le> 0" by simp
  moreover have "(0::int) < 2 ^ 63" by simp
  ultimately have up: "- int (unat (h - i)) < 2 ^ 63" by linarith
  have lo: "- (2 ^ 63) \<le> - int (unat (h - i))" using u by linarith
  have "i - h = - (h - i)" by simp
  then have "sint (i - h) = sint (- (h - i))" by (rule arg_cong)
  also have "\<dots> = signed_take_bit (LENGTH(64) - 1) (- sint (h - i))" by (rule sint_word_minus)
  also have "\<dots> = signed_take_bit 63 (- int (unat (h - i)))" unfolding s by simp
  also have "\<dots> = - int (unat (h - i))" using lo up by (rule signed_take_bit_int_eq_self)
  finally show ?thesis .
qed

lemma copy_cond:
  assumes "unat ((h :: 64 word) - i) < 2 ^ 63"
  shows "sint (i - h) < 0 \<longleftrightarrow> unat (h - i) \<noteq> 0"
proof -
  have g: "(- int n < 0) = (n \<noteq> 0)" for n :: nat by simp
  show ?thesis unfolding sint_neg_dist [OF assms] by (rule g)
qed

lemma reserve_copy_unfold:
  assumes c: "sint (i - h) < 0"
  shows "reserve_copy nb ob i h = reserve_copy (nb\<lparr>block_items := (block_items nb)
       (spmc_queue_slot nb i := block_items ob (spmc_queue_slot ob i))\<rparr>) ob (i + 1) h"
proof -
  have "reserve_copy nb ob i h = (if sint (i - h) < 0 then reserve_copy (nb\<lparr>block_items := (block_items nb)
       (spmc_queue_slot nb i := block_items ob (spmc_queue_slot ob i))\<rparr>) ob (i + 1) h else nb)"
    by (rule reserve_copy.simps)
  also have "\<dots> = reserve_copy (nb\<lparr>block_items := (block_items nb)
       (spmc_queue_slot nb i := block_items ob (spmc_queue_slot ob i))\<rparr>) ob (i + 1) h"
    using c by (rule if_P)
  finally show ?thesis .
qed


lemma reserve_copy_header:
  "block_mask (reserve_copy nb ob i h) = block_mask nb \<and>
   block_next (reserve_copy nb ob i h) = block_next nb"
proof (induction nb ob i h rule: reserve_copy.induct)
  case (1 nb ob i h)
  show ?case
  proof (cases "sint (i - h) < 0")
    case True
    from 1 [OF True] show ?thesis using True by (subst (1 2) reserve_copy.simps) simp
  next
    case False
    then show ?thesis by (subst (1 2) reserve_copy.simps) simp
  qed
qed

lemma reserve_copy_frame:
  assumes "unat (h - i) = n" "n < 2 ^ 63"
    and "\<forall>j<n. s \<noteq> spmc_queue_slot nb (i + of_nat j)"
  shows "block_items (reserve_copy nb ob i h) s = block_items nb s"
  using assms
proof (induction n arbitrary: nb i)
  case 0
  then have "\<not> sint (i - h) < 0" using copy_cond [of h i] by simp
  then show ?case by (subst reserve_copy.simps) simp
next
  case (Suc n)
  let ?nb = "nb\<lparr>block_items := (block_items nb)
       (spmc_queue_slot nb i := block_items ob (spmc_queue_slot ob i))\<rparr>"
  have lt: "unat (h - i) < 2 ^ 63" using Suc.prems by simp
  have c: "sint (i - h) < 0" using copy_cond [OF lt] Suc.prems(1) by simp
  have ne: "h \<noteq> i" using Suc.prems(1) by auto
  have d: "unat (h - (i + 1)) = n" using dist_suc_left [OF ne] Suc.prems(1) by simp
  have n: "n < 2 ^ 63" using Suc.prems(2) by simp
  have sl: "spmc_queue_slot ?nb = spmc_queue_slot nb" by (simp add: spmc_queue_slot_def fun_eq_iff)
  have fr: "\<forall>j<n. s \<noteq> spmc_queue_slot ?nb (i + 1 + of_nat j)"
  proof (intro allI impI)
    fix j assume "j < n"
    then have "s \<noteq> spmc_queue_slot nb (i + of_nat (Suc j))"
      using Suc.prems(3) [rule_format, of "Suc j"] by simp
    then show "s \<noteq> spmc_queue_slot ?nb (i + 1 + of_nat j)" unfolding sl by (simp add: add.assoc)
  qed
  have s0: "s \<noteq> spmc_queue_slot nb i" using Suc.prems(3) [rule_format, of 0] by simp
  have "reserve_copy nb ob i h = reserve_copy ?nb ob (i + 1) h"
    using c by (rule reserve_copy_unfold)
  then have "block_items (reserve_copy nb ob i h) s = block_items ?nb s"
    using Suc.IH [OF d n fr] by simp
  then show ?case using s0 by simp
qed

lemma reserve_copy_copied:
  assumes "unat (h - i) = n" "n \<le> 2 ^ k" "k \<le> 62" "block_mask nb = mask k"
  shows "\<forall>j<n. block_items (reserve_copy nb ob i h) (spmc_queue_slot nb (i + of_nat j))
            = block_items ob (spmc_queue_slot ob (i + of_nat j))"
  using assms
proof (induction n arbitrary: nb i)
  case 0
  then show ?case by simp
next
  case (Suc n)
  let ?nb = "nb\<lparr>block_items := (block_items nb)
       (spmc_queue_slot nb i := block_items ob (spmc_queue_slot ob i))\<rparr>"
  have k63: "k < 63" and k64: "k \<le> 64" using Suc.prems(3) by simp_all
  have p: "(2::nat) ^ k < 2 ^ 63" using k63 by (rule pow_lt_63)
  have lt: "unat (h - i) < 2 ^ 63" using Suc.prems(1,2) p by linarith
  have c: "sint (i - h) < 0" using copy_cond [OF lt] Suc.prems(1) by simp
  have ne: "h \<noteq> i" using Suc.prems(1) by auto
  have d: "unat (h - (i + 1)) = n" using dist_suc_left [OF ne] Suc.prems(1) by simp
  have n: "n \<le> 2 ^ k" using Suc.prems(2) by simp
  have n63: "n < 2 ^ 63" using n p by linarith
  have sl: "spmc_queue_slot ?nb = spmc_queue_slot nb" by (simp add: spmc_queue_slot_def fun_eq_iff)
  have m: "block_mask ?nb = mask k" using Suc.prems(4) by simp
  have unf: "reserve_copy nb ob i h = reserve_copy ?nb ob (i + 1) h"
    using c by (rule reserve_copy_unfold)
  have ih: "\<forall>j<n. block_items (reserve_copy ?nb ob (i + 1) h) (spmc_queue_slot ?nb (i + 1 + of_nat j))
            = block_items ob (spmc_queue_slot ob (i + 1 + of_nat j))"
    using Suc.IH [OF d n Suc.prems(3) m] .
  show ?case
  proof (intro allI impI)
    fix j assume j: "j < Suc n"
    show "block_items (reserve_copy nb ob i h) (spmc_queue_slot nb (i + of_nat j))
            = block_items ob (spmc_queue_slot ob (i + of_nat j))"
    proof (cases j)
      case 0
      have "\<forall>j<n. spmc_queue_slot nb i \<noteq> spmc_queue_slot ?nb (i + 1 + of_nat j)"
      proof (intro allI impI)
        fix j' assume j': "j' < n"
        have "(i + of_nat 0) AND mask k \<noteq> (i + of_nat (Suc j')) AND mask k"
          using k64 
        proof (rule slot_neq)
          show "0 < (2::nat) ^ k" by simp
          show "Suc j' < 2 ^ k" using j' Suc.prems(2) by simp
          show "0 \<noteq> Suc j'" by simp
        qed
        then show "spmc_queue_slot nb i \<noteq> spmc_queue_slot ?nb (i + 1 + of_nat j')"
          unfolding sl by (simp add: spmc_queue_slot_def Suc.prems(4) add.assoc)
      qed
      from reserve_copy_frame [OF d n63 this]
      have "block_items (reserve_copy nb ob i h) (spmc_queue_slot nb i)
          = block_items ?nb (spmc_queue_slot nb i)" unfolding unf .
      then show ?thesis using 0 by simp
    next
      case (Suc j')
      then have "j' < n" using j by simp
      then have "block_items (reserve_copy ?nb ob (i + 1) h) (spmc_queue_slot ?nb (i + 1 + of_nat j'))
            = block_items ob (spmc_queue_slot ob (i + 1 + of_nat j'))" using ih by blast
      then show ?thesis unfolding unf sl Suc by (simp add: add.assoc)
    qed
  qed
qed

section \<open>The chain of blocks\<close>
lemma live_chain_cur:
  assumes "live_chain m (Some p)"
  shows "Suc p = length m \<and> (\<exists>b k. load_block m p = Some b \<and> 6 \<le> k \<and> k \<le> 62 \<and> block_mask b = mask k)"
proof -
  from assms obtain f where f: "f \<le> length m"
    and live: "\<forall>p\<in>{f..<length m}. case m ! p of None \<Rightarrow> False
        | Some b \<Rightarrow> block_next b = (if p = f then None else Some (p - 1)) \<and>
            (\<exists>k\<in>{6..62}. block_mask b = mask k)"
    and cur: "Some p = (if f = length m then None else Some (length m - 1))"
    unfolding live_chain_def by auto
  from cur have fl: "f \<noteq> length m" and p: "p = length m - 1" by (auto split: if_splits)
  then have pl: "Suc p = length m" using f by simp
  then have "p \<in> {f..<length m}" using f fl by auto
  with live have "case m ! p of None \<Rightarrow> False
        | Some b \<Rightarrow> block_next b = (if p = f then None else Some (p - 1)) \<and>
            (\<exists>k\<in>{6..62}. block_mask b = mask k)" by blast
  then obtain b k where "m ! p = Some b" "6 \<le> k" "k \<le> 62" "block_mask b = mask k"
    by (auto split: option.splits)
  then show ?thesis using pl by (auto simp: load_block_def)
qed

lemma live_chain_None: "live_chain m None \<Longrightarrow> \<forall>p<length m. m ! p = None"
  unfolding live_chain_def by (auto split: if_splits)

lemma live_chain_freed: "live_chain (replicate n None) None"
  unfolding live_chain_def by (intro bexI [of _ n]) auto

lemma live_chain_append:
  assumes "live_chain m cur" "6 \<le> k" "k \<le> 62" "block_mask nb = mask k" "block_next nb = cur"
  shows "live_chain (m @ [Some nb]) (Some (length m))"
proof -
  from assms(1) obtain f where f: "f \<le> length m"
    and freed: "\<forall>p\<in>{0..<f}. m ! p = None"
    and live: "\<forall>p\<in>{f..<length m}. case m ! p of None \<Rightarrow> False
        | Some b \<Rightarrow> block_next b = (if p = f then None else Some (p - 1)) \<and>
            (\<exists>k\<in>{6..62}. block_mask b = mask k)"
    and cur: "cur = (if f = length m then None else Some (length m - 1))"
    unfolding live_chain_def by auto
  have 1: "\<forall>p\<in>{0..<f}. (m @ [Some nb]) ! p = None"
    using freed f by (auto simp: nth_append)
  have 2: "\<forall>p\<in>{f..<length (m @ [Some nb])}. case (m @ [Some nb]) ! p of None \<Rightarrow> False
        | Some b \<Rightarrow> block_next b = (if p = f then None else Some (p - 1)) \<and>
            (\<exists>k\<in>{6..62}. block_mask b = mask k)"
  proof
    fix p assume p: "p \<in> {f..<length (m @ [Some nb])}"
    show "case (m @ [Some nb]) ! p of None \<Rightarrow> False
        | Some b \<Rightarrow> block_next b = (if p = f then None else Some (p - 1)) \<and>
            (\<exists>k\<in>{6..62}. block_mask b = mask k)"
    proof (cases "p < length m")
      case True
      then have "p \<in> {f..<length m}" using p by simp
      then show ?thesis using live True by (simp add: nth_append)
    next
      case False
      then have "p = length m" using p by simp
      then show ?thesis using assms(2-5) cur by (auto simp: nth_append)
    qed
  qed
  have 3: "Some (length m) = (if f = length (m @ [Some nb]) then None
      else Some (length (m @ [Some nb]) - 1))"
    using f by simp
  have "f \<in> {0..length (m @ [Some nb])}" using f by simp
  then show ?thesis unfolding live_chain_def using 1 2 3 by blast
qed

lemma live_chain_update:
  assumes "live_chain m (Some p)" "load_block m p = Some b"
  shows "live_chain (m[p := Some (b\<lparr>block_items := x\<rparr>)]) (Some p)"
proof -
  from assms(1) obtain f where f: "f \<le> length m"
    and freed: "\<forall>p\<in>{0..<f}. m ! p = None"
    and live: "\<forall>p\<in>{f..<length m}. case m ! p of None \<Rightarrow> False
        | Some b \<Rightarrow> block_next b = (if p = f then None else Some (p - 1)) \<and>
            (\<exists>k\<in>{6..62}. block_mask b = mask k)"
    and cur: "Some p = (if f = length m then None else Some (length m - 1))"
    unfolding live_chain_def by auto
  let ?m = "m[p := Some (b\<lparr>block_items := x\<rparr>)]"
  from cur have fl: "f \<noteq> length m" and p: "p = length m - 1" by (auto split: if_splits)
  have pf: "f \<le> p" "p < length m" using f fl p by simp_all
  have mp: "m ! p = Some b" using assms(2) by (auto simp: load_block_def split: if_splits)
  have 1: "\<forall>q\<in>{0..<f}. ?m ! q = None" using freed pf by auto
  have 2: "\<forall>q\<in>{f..<length ?m}. case ?m ! q of None \<Rightarrow> False
        | Some b \<Rightarrow> block_next b = (if q = f then None else Some (q - 1)) \<and>
            (\<exists>k\<in>{6..62}. block_mask b = mask k)"
  proof
    fix q assume q: "q \<in> {f..<length ?m}"
    then have q': "q \<in> {f..<length m}" by simp
    show "case ?m ! q of None \<Rightarrow> False
        | Some b \<Rightarrow> block_next b = (if q = f then None else Some (q - 1)) \<and>
            (\<exists>k\<in>{6..62}. block_mask b = mask k)"
    proof (cases "q = p")
      case True
      then show ?thesis using live [rule_format, OF q'] mp pf by simp
    next
      case False
      then show ?thesis using live [rule_format, OF q'] by simp
    qed
  qed
  have 3: "Some p = (if f = length ?m then None else Some (length ?m - 1))"
    using cur by simp
  have "f \<in> {0..length ?m}" using f by simp
  then show ?thesis unfolding live_chain_def using 1 2 3 by blast
qed

lemma free_chain_walk:
  assumes "n = p - f" "f \<le> p" "p < length m"
    and "\<forall>q<f. m ! q = None"
    and "\<forall>q. p < q \<and> q < length m \<longrightarrow> m ! q = None"
    and "\<forall>q. f \<le> q \<and> q \<le> p \<longrightarrow>
           (\<exists>b. m ! q = Some b \<and> block_next b = (if q = f then None else Some (q - 1)))"
  shows "free_chain m (Some p) = Some (replicate (length m) None)"
  using assms
proof (induction n arbitrary: p m)
  case 0
  then have pf: "p = f" by simp
  from 0(6) [rule_format, of p] 0(2) obtain b where b: "m ! p = Some b" "block_next b = None"
    using pf by auto
  then have ld: "load_block m p = Some b" using 0(3) by (simp add: load_block_def)
  have "m[p := None] = replicate (length m) None"
  proof (rule nth_equalityI)
    show "length (m[p := None]) = length (replicate (length m) None)" by simp
  next
    fix i assume "i < length (m[p := None])"
    then have i: "i < length m" by simp
    have "m[p := None] ! i = None"
    proof (cases "i = p")
      case True
      then show ?thesis using i by simp
    next
      case False
      then have "i < f \<or> p < i" using pf by auto
      then have "m ! i = None" using 0(4,5) i by auto
      then show ?thesis using False by simp
    qed
    then show "m[p := None] ! i = replicate (length m) None ! i" using i by simp
  qed
  then show ?case using ld b(2) by (simp add: free_chain.simps)
next
  case (Suc n)
  then have pf: "f < p" by simp
  from Suc.prems(6) [rule_format, of p] Suc.prems(2) pf obtain b
    where b: "m ! p = Some b" "block_next b = Some (p - 1)" by auto
  then have ld: "load_block m p = Some b" using Suc.prems(3) by (simp add: load_block_def)
  let ?m = "m[p := None]"
  have "free_chain ?m (Some (p - 1)) = Some (replicate (length ?m) None)"
  proof (rule Suc.IH)
    show "n = p - 1 - f" using Suc.prems(1) by simp
    show "f \<le> p - 1" using pf by simp
    show "p - 1 < length ?m" using Suc.prems(3) by simp
    show "\<forall>q<f. ?m ! q = None" using Suc.prems(4) pf by simp
    show "\<forall>q. p - 1 < q \<and> q < length ?m \<longrightarrow> ?m ! q = None"
    proof (intro allI impI)
      fix q assume q: "p - 1 < q \<and> q < length ?m"
      show "?m ! q = None"
      proof (cases "q = p")
        case True
        then show ?thesis using q by simp
      next
        case False
        then have "p < q \<and> q < length m" using q by auto
        then show ?thesis using Suc.prems(5) False by simp
      qed
    qed
    show "\<forall>q. f \<le> q \<and> q \<le> p - 1 \<longrightarrow>
           (\<exists>b. ?m ! q = Some b \<and> block_next b = (if q = f then None else Some (q - 1)))"
    proof (intro allI impI)
      fix q assume q: "f \<le> q \<and> q \<le> p - 1"
      then have "q \<noteq> p" "f \<le> q \<and> q \<le> p" using pf by auto
      then show "\<exists>b. ?m ! q = Some b \<and> block_next b = (if q = f then None else Some (q - 1))"
        using Suc.prems(6) by simp
    qed
  qed
  then show ?case using ld b(2) by (simp add: free_chain.simps)
qed

lemma free_chain_live:
  assumes "live_chain m cur"
  shows "free_chain m cur = Some (replicate (length m) None)"
proof (cases cur)
  case None
  then have "\<forall>p<length m. m ! p = None" using assms live_chain_None by blast
  then have "m = replicate (length m) None"
    by (intro nth_equalityI) simp_all
  then show ?thesis using None by (simp add: free_chain.simps)
next
  case (Some p)
  from assms obtain f where f: "f \<le> length m"
    and freed: "\<forall>p\<in>{0..<f}. m ! p = None"
    and live: "\<forall>p\<in>{f..<length m}. case m ! p of None \<Rightarrow> False
        | Some b \<Rightarrow> block_next b = (if p = f then None else Some (p - 1)) \<and>
            (\<exists>k\<in>{6..62}. block_mask b = mask k)"
    and cur: "cur = (if f = length m then None else Some (length m - 1))"
    unfolding live_chain_def by auto
  from cur Some have fl: "f \<noteq> length m" and p: "p = length m - 1" by (auto split: if_splits)
  have "free_chain m (Some p) = Some (replicate (length m) None)"
  proof (rule free_chain_walk [OF refl])
    show "f \<le> p" "p < length m" using f fl p by simp_all
    show "\<forall>q<f. m ! q = None" using freed by simp
    show "\<forall>q. p < q \<and> q < length m \<longrightarrow> m ! q = None" using p by auto
    show "\<forall>q. f \<le> q \<and> q \<le> p \<longrightarrow>
           (\<exists>b. m ! q = Some b \<and> block_next b = (if q = f then None else Some (q - 1)))"
    proof (intro allI impI)
      fix q assume "f \<le> q \<and> q \<le> p"
      then have "q \<in> {f..<length m}" using p fl f by auto
      from live [rule_format, OF this]
      show "\<exists>b. m ! q = Some b \<and> block_next b = (if q = f then None else Some (q - 1))"
        by (auto split: option.splits)
    qed
  qed
  then show ?thesis using Some by simp
qed

section \<open>The invariant and initialisation\<close>
lemma pow_le_62: "k \<le> 62 \<Longrightarrow> (2::nat) ^ k \<le> 2 ^ 62"
  by (rule power_increasing) simp_all

lemma queue_inv_cases:
  assumes "queue_inv q"
  obtains (no_block) "push_block q = None" "pop_block q = None" "cap_of q = 0"
  | (block) p b k where "push_block q = Some p" "pop_block q = Some p"
      "load_block (memory q) p = Some b" "block_mask b = mask k" "6 \<le> k" "k \<le> 62"
      "cap_of q = 2 ^ k" "Suc p = length (memory q)"
proof (cases "push_block q")
  case None
  then have "pop_block q = None" "cap_of q = 0"
    using assms by (simp_all add: queue_inv_def cap_of_def)
  then show ?thesis using None no_block by blast
next
  case (Some p)
  then have lc: "live_chain (memory q) (Some p)" and pb: "pop_block q = Some p"
    using assms by (simp_all add: queue_inv_def)
  from live_chain_cur [OF lc] obtain b k where b: "Suc p = length (memory q)"
    "load_block (memory q) p = Some b" "6 \<le> k" "k \<le> 62" "block_mask b = mask k" by blast
  have "k < 64" using b(4) by simp
  then have "unat (mask k :: 64 word) + 1 = 2 ^ k" by (rule unat_mask64)
  then have "cap_of q = 2 ^ k" using Some b by (simp add: cap_of_def)
  then show ?thesis using Some pb b block by blast
qed

lemma cap_of_le:
  assumes "queue_inv q"
  shows "cap_of q \<le> 2 ^ 62"
  using assms
proof (cases rule: queue_inv_cases)
  case no_block
  then show ?thesis by simp
next
  case (block p b k)
  then show ?thesis using pow_le_62 by simp
qed

lemma p62_lt_63: "(2::nat) ^ 62 < 2 ^ 63" by simp
lemma p62_lt_64: "(2::nat) ^ 62 < 2 ^ 64" by simp

lemma queue_inv_dists:
  assumes "queue_inv q"
  shows "unat (push_head q - pop_tail q)
           = unat (pop_estimate_head q - pop_tail q) + unat (push_head q - pop_estimate_head q)"
    and "unat (push_head q - push_estimate_tail q)
           = unat (pop_tail q - push_estimate_tail q) + unat (pop_estimate_head q - pop_tail q)
             + unat (push_head q - pop_estimate_head q)"
    and "unat (pop_tail q - push_estimate_tail q) + unat (pop_estimate_head q - pop_tail q)
             + unat (push_head q - pop_estimate_head q) \<le> cap_of q"
proof -
  show s: "unat (pop_tail q - push_estimate_tail q) + unat (pop_estimate_head q - pop_tail q)
             + unat (push_head q - pop_estimate_head q) \<le> cap_of q"
    using assms by (simp add: queue_inv_def)
  have c: "cap_of q < 2 ^ 64" using cap_of_le [OF assms] p62_lt_64 by linarith
  have "unat (pop_estimate_head q - pop_tail q) + unat (push_head q - pop_estimate_head q) < 2 ^ 64"
    using s c by linarith
  then show ht: "unat (push_head q - pop_tail q)
           = unat (pop_estimate_head q - pop_tail q) + unat (push_head q - pop_estimate_head q)"
    by (rule dist_split)
  have "unat (pop_tail q - push_estimate_tail q) + unat (push_head q - pop_tail q) < 2 ^ 64"
    using s c ht by linarith
  then have "unat (push_head q - push_estimate_tail q)
      = unat (pop_tail q - push_estimate_tail q) + unat (push_head q - pop_tail q)"
    by (rule dist_split)
  then show "unat (push_head q - push_estimate_tail q)
           = unat (pop_tail q - push_estimate_tail q) + unat (pop_estimate_head q - pop_tail q)
             + unat (push_head q - pop_estimate_head q)"
    using ht by simp
qed

lemma queue_inv_count:
  assumes "queue_inv q"
  shows "unat (push_head q - pop_tail q) \<le> cap_of q"
    and "sint (push_head q - pop_tail q) = int (unat (push_head q - pop_tail q))"
proof -
  show c: "unat (push_head q - pop_tail q) \<le> cap_of q"
    using queue_inv_dists [OF assms] by linarith
  have "unat (push_head q - pop_tail q) < 2 ^ 63"
    using c cap_of_le [OF assms] p62_lt_63 by linarith
  then show "sint (push_head q - pop_tail q) = int (unat (push_head q - pop_tail q))"
    by (rule sint_unat_small)
qed

lemma queue_inv_zeroed: "queue_inv (zeroed (replicate n None))"
  unfolding queue_inv_def by (simp add: zeroed_def live_chain_freed cap_of_def)

lemma queue_inv_zeroed_Nil: "queue_inv (zeroed [])"
  using queue_inv_zeroed [of 0] by simp

lemma deinit_inv:
  assumes "queue_inv q"
  shows "spmc_queue_deinit q = Some (zeroed (replicate (length (memory q)) None))"
proof -
  have "live_chain (memory q) (push_block q)" using assms by (simp add: queue_inv_def)
  then have "free_chain (memory q) (push_block q) = Some (replicate (length (memory q)) None)"
    by (rule free_chain_live)
  then show ?thesis by (simp add: spmc_queue_deinit_def zeroed_def)
qed

lemma init_inv:
  assumes "queue_inv q"
  shows "spmc_queue_init q sz mc =
     (if 0 < sint sz \<and> sint sz \<le> sint UINT32_MAX
      then Some ((zeroed (replicate (length (memory q)) None))
                   \<lparr>push_max_capacity := mc, push_item_size := sz, pop_item_size := sz\<rparr>)
      else None)"
  by (simp add: spmc_queue_init_def deinit_inv [OF assms] zeroed_def)

lemma queue_inv_fields:
  "queue_inv (q\<lparr>push_max_capacity := mc, push_item_size := sz, pop_item_size := sz\<rparr>) = 
     (pop_block q = push_block q \<and> live_chain (memory q) (push_block q) \<and>
     unat (pop_tail q - push_estimate_tail q) + unat (pop_estimate_head q - pop_tail q)
       + unat (push_head q - pop_estimate_head q) \<le> cap_of q)"
  by (simp add: queue_inv_def cap_of_def cong: option.case_cong)

lemma init_preserves:
  assumes "queue_inv q" "spmc_queue_init q sz mc = Some q'"
  shows "queue_inv q' \<and> push_head q' = 0 \<and> pop_tail q' = 0 \<and> push_block q' = None
     \<and> push_max_capacity q' = mc \<and> cap_of q' = 0"
proof -
  have q': "q' = (zeroed (replicate (length (memory q)) None))
                   \<lparr>push_max_capacity := mc, push_item_size := sz, pop_item_size := sz\<rparr>"
    using assms(2) unfolding init_inv [OF assms(1)] by (simp split: if_splits)
  have "queue_inv q'"
    unfolding q' queue_inv_def by (simp add: zeroed_def live_chain_freed cap_of_def)
  then show ?thesis unfolding q' by (simp add: zeroed_def cap_of_def)
qed

section \<open>Pops under the invariant\<close>
lemma tl_map_upt: "tl (map f [0..<n]) = map (\<lambda>i. f (Suc i)) [0..<n - 1]"
proof (cases n)
  case 0
  then show ?thesis by simp
next
  case (Suc m)
  have "[0..<Suc m] = 0 # map Suc [0..<m]" by (simp add: upt_conv_Cons map_Suc_upt del: upt_Suc)
  then show ?thesis using Suc by (simp add: comp_def del: upt_Suc)
qed

lemma hd_map_upt: "0 < n \<Longrightarrow> hd (map f [0..<n]) = f 0"
  by (cases n) (simp_all add: upt_conv_Cons del: upt_Suc)

lemma sint_le0_iff:
  assumes "unat (x :: 64 word) < 2 ^ 63"
  shows "sint x \<le> 0 \<longleftrightarrow> x = 0"
proof -
  have g: "(int n \<le> 0) = (n = 0)" for n :: nat by simp
  have "sint x \<le> 0 \<longleftrightarrow> unat x = 0"
    unfolding sint_unat_small [OF assms] by (rule g)
  then show ?thesis by (simp add: unat_eq_zero)
qed

lemma sint_ge0_rev_iff:
  assumes "unat ((h :: 64 word) - t) < 2 ^ 63"
  shows "0 \<le> sint (t - h) \<longleftrightarrow> h = t"
proof -
  have g: "(0 \<le> - int n) = (n = 0)" for n :: nat by simp
  have "0 \<le> sint (t - h) \<longleftrightarrow> unat (h - t) = 0"
    unfolding sint_neg_dist [OF assms] by (rule g)
  then show ?thesis by (simp add: unat_eq_zero)
qed

lemma queue_inv_small:
  assumes "queue_inv q"
  shows "unat (pop_estimate_head q - pop_tail q) < 2 ^ 63"
    and "unat (push_head q - pop_tail q) < 2 ^ 63"
    and "unat (push_head q - push_estimate_tail q) < 2 ^ 63"
    and "unat (pop_tail q - push_estimate_tail q) + 1 < 2 ^ 64"
proof -
  note d = queue_inv_dists [OF assms]
  have c: "cap_of q < 2 ^ 63" using cap_of_le [OF assms] p62_lt_63 by linarith
  have c': "cap_of q + 1 < 2 ^ 64" using cap_of_le [OF assms] by simp
  show "unat (pop_estimate_head q - pop_tail q) < 2 ^ 63" using d c by linarith
  show "unat (push_head q - pop_tail q) < 2 ^ 63" using d c by linarith
  show "unat (push_head q - push_estimate_tail q) < 2 ^ 63" using d c by linarith
  show "unat (pop_tail q - push_estimate_tail q) + 1 < 2 ^ 64" using d c' by linarith
qed

lemma cap_of_cong:
  "push_block q' = push_block q \<Longrightarrow> memory q' = memory q \<Longrightarrow> cap_of q' = cap_of q"
  by (simp add: cap_of_def cong: option.case_cong)

text \<open>The state after a successful pop.\<close>

lemma popped_state:
  assumes inv: "queue_inv q" and ne: "push_head q \<noteq> pop_tail q"
    and eh: "eh = (if pop_estimate_head q = pop_tail q then push_head q else pop_estimate_head q)"
    and q': "q' = q\<lparr>pop_estimate_head := eh, pop_tail := pop_tail q + 1\<rparr>"
  shows "queue_inv q'" and "queue_items q' = tl (queue_items q)"
    and "unat (push_head q' - pop_tail q') = unat (push_head q - pop_tail q) - 1"
proof -
  note d = queue_inv_dists [OF inv]
  note s = queue_inv_small [OF inv]
  have cap: "cap_of q' = cap_of q" unfolding q' by (rule cap_of_cong) simp_all
  have d1: "unat (pop_tail q + 1 - push_estimate_tail q) = unat (pop_tail q - push_estimate_tail q) + 1"
    using s(4) by (rule dist_suc_right)
  have n0: "unat (push_head q - pop_tail q) \<noteq> 0" using ne by (simp add: unat_eq_zero)
  have ht: "unat (push_head q - (pop_tail q + 1)) = unat (push_head q - pop_tail q) - 1"
    using ne by (rule dist_suc_left)
  show "unat (push_head q' - pop_tail q') = unat (push_head q - pop_tail q) - 1"
    unfolding q' using ht by simp
  have sum: "unat (pop_tail q + 1 - push_estimate_tail q) + unat (eh - (pop_tail q + 1))
       + unat (push_head q - eh) \<le> cap_of q"
  proof (cases "pop_estimate_head q = pop_tail q")
    case True
    then have "eh = push_head q" using eh by simp
    then show ?thesis using d d1 ht n0 True by simp
  next
    case False
    then have e: "eh = pop_estimate_head q" using eh by simp
    have "unat (pop_estimate_head q - pop_tail q) \<noteq> 0" using False by (simp add: unat_eq_zero)
    moreover have "unat (pop_estimate_head q - (pop_tail q + 1)) = unat (pop_estimate_head q - pop_tail q) - 1"
      using False by (rule dist_suc_left)
    ultimately show ?thesis using d d1 e by simp
  qed
  show "queue_inv q'"
    using inv sum unfolding queue_inv_def cap unfolding q' by simp
  show "queue_items q' = tl (queue_items q)"
  proof -
    have "queue_items q' = (case pop_block q of None \<Rightarrow> []
      | Some p \<Rightarrow> (case load_block (memory q) p of None \<Rightarrow> []
          | Some b \<Rightarrow> map (\<lambda>i. block_items b (spmc_queue_slot b (pop_tail q + of_nat (Suc i))))
               [0..<unat (push_head q - pop_tail q) - 1]))"
      unfolding q' queue_items_def using ht by (simp add: add.assoc split: option.splits)
    also have "\<dots> = tl (queue_items q)"
      unfolding queue_items_def by (simp add: tl_map_upt split: option.splits)
    finally show ?thesis .
  qed
qed

lemma pop_copy_inv:
  assumes inv: "queue_inv q" and ne: "push_head q \<noteq> pop_tail q"
  shows "pop_copy (memory q) (pop_block q) (pop_tail q) item
           = Some (map_option (\<lambda>_. hd (queue_items q)) item)"
  using inv
proof (cases rule: queue_inv_cases)
  case no_block
  have "unat (push_head q - pop_tail q) \<le> 0" using queue_inv_count(1) [OF inv] no_block by simp
  then have "push_head q = pop_tail q" by (simp add: unat_eq_zero)
  then show ?thesis using ne by simp
next
  case (block p b k)
  have n0: "0 < unat (push_head q - pop_tail q)" using ne by (simp add: unat_gt_0)
  have "hd (map (\<lambda>i. block_items b (spmc_queue_slot b (pop_tail q + of_nat i)))
             [0..<unat (push_head q - pop_tail q)])
        = block_items b (spmc_queue_slot b (pop_tail q + of_nat 0))"
    using n0 by (rule hd_map_upt)
  then have "hd (queue_items q) = block_items b (spmc_queue_slot b (pop_tail q))"
    using block by (simp add: queue_items_def)
  then show ?thesis using block by (cases item) (simp_all add: pop_copy_def)
qed

lemma est_head_eq:
  assumes "queue_inv q" "push_head q = pop_tail q"
  shows "pop_estimate_head q = pop_tail q"
proof -
  have "unat (push_head q - pop_tail q) = 0" using assms(2) by simp
  then have "unat (pop_estimate_head q - pop_tail q) = 0"
    using queue_inv_dists(1) [OF assms(1)] by simp
  then show ?thesis by (simp add: unat_eq_zero)
qed

lemma pop_st_empty:
  assumes inv: "queue_inv q" and e: "push_head q = pop_tail q"
  shows "spmc_queue_result_pop_st q item (pop_item_size q)
    = Some (\<lparr>head = push_head q, tail = pop_tail q, state = SPMC_QUEUE_EMPTY\<rparr>, item,
            q\<lparr>pop_estimate_head := push_head q\<rparr>)"
  using est_head_eq [OF inv e] e by (simp add: spmc_queue_result_pop_st_def Let_def)

lemma pop_st_ok:
  assumes inv: "queue_inv q" and ne: "push_head q \<noteq> pop_tail q"
    and eh: "eh = (if pop_estimate_head q = pop_tail q then push_head q else pop_estimate_head q)"
  shows "spmc_queue_result_pop_st q item (pop_item_size q)
    = Some (\<lparr>head = eh, tail = pop_tail q, state = SPMC_QUEUE_OK\<rparr>,
            map_option (\<lambda>_. hd (queue_items q)) item,
            q\<lparr>pop_estimate_head := eh, pop_tail := pop_tail q + 1\<rparr>)"
proof -
  note s = queue_inv_small [OF inv]
  have c1: "sint (pop_estimate_head q - pop_tail q) \<le> 0 \<longleftrightarrow> pop_estimate_head q = pop_tail q"
    using sint_le0_iff [OF s(1)] by simp
  have c2: "\<not> sint (push_head q - pop_tail q) \<le> 0"
    using sint_le0_iff [OF s(2)] ne by simp
  note pc = pop_copy_inv [OF inv ne, of item]
  show ?thesis
  proof (cases "pop_estimate_head q = pop_tail q")
    case True
    then show ?thesis using c2 pc eh
      by (simp add: spmc_queue_result_pop_st_def Let_def pop_st_take_def)
  next
    case False
    then have "\<not> sint (pop_estimate_head q - pop_tail q) \<le> 0" using c1 by simp
    then show ?thesis using False pc eh
      by (simp add: spmc_queue_result_pop_st_def Let_def pop_st_take_def)
  qed
qed

lemma pop_weak_empty:
  assumes inv: "queue_inv q" and e: "push_head q = pop_tail q"
  shows "spmc_queue_result_pop_weak others q item (pop_item_size q)
    = Some (\<lparr>head = push_head q, tail = pop_tail q, state = SPMC_QUEUE_EMPTY\<rparr>, item,
            q\<lparr>pop_estimate_head := push_head q\<rparr>)"
  using est_head_eq [OF inv e] e by (simp add: spmc_queue_result_pop_weak_def Let_def)

lemma pop_weak_ok:
  assumes inv: "queue_inv q" and ne: "push_head q \<noteq> pop_tail q"
    and eh: "eh = (if pop_estimate_head q = pop_tail q then push_head q else pop_estimate_head q)"
  shows "spmc_queue_result_pop_weak id q item (pop_item_size q)
    = Some (\<lparr>head = eh, tail = pop_tail q, state = SPMC_QUEUE_OK\<rparr>,
            map_option (\<lambda>_. hd (queue_items q)) item,
            q\<lparr>pop_estimate_head := eh, pop_tail := pop_tail q + 1\<rparr>)"
proof -
  note s = queue_inv_small [OF inv]
  have c1: "0 \<le> sint (pop_tail q - pop_estimate_head q) \<longleftrightarrow> pop_estimate_head q = pop_tail q"
    using sint_ge0_rev_iff [OF s(1)] by simp
  have c2: "\<not> 0 \<le> sint (pop_tail q - push_head q)"
    using sint_ge0_rev_iff [OF s(2)] ne by simp
  note pc = pop_copy_inv [OF inv ne, of item]
  show ?thesis
  proof (cases "pop_estimate_head q = pop_tail q")
    case True
    then show ?thesis using c2 pc eh
      by (simp add: spmc_queue_result_pop_weak_def Let_def pop_weak_take_def)
  next
    case False
    then have "\<not> 0 \<le> sint (pop_tail q - pop_estimate_head q)" using c1 by simp
    then show ?thesis using False pc eh
      by (simp add: spmc_queue_result_pop_weak_def Let_def pop_weak_take_def)
  qed
qed

lemma pop_empty:
  assumes inv: "queue_inv q" and e: "push_head q = pop_tail q"
  shows "spmc_queue_result_pop [] q item (pop_item_size q)
    = Some (\<lparr>head = push_head q, tail = pop_tail q, state = SPMC_QUEUE_EMPTY\<rparr>, item,
            q\<lparr>pop_estimate_head := push_head q\<rparr>)"
  by (subst spmc_queue_result_pop.simps) (simp add: pop_weak_empty [OF inv e])

lemma pop_ok:
  assumes inv: "queue_inv q" and ne: "push_head q \<noteq> pop_tail q"
    and eh: "eh = (if pop_estimate_head q = pop_tail q then push_head q else pop_estimate_head q)"
  shows "spmc_queue_result_pop [] q item (pop_item_size q)
    = Some (\<lparr>head = eh, tail = pop_tail q, state = SPMC_QUEUE_OK\<rparr>,
            map_option (\<lambda>_. hd (queue_items q)) item,
            q\<lparr>pop_estimate_head := eh, pop_tail := pop_tail q + 1\<rparr>)"
  by (subst spmc_queue_result_pop.simps) (simp add: pop_weak_ok [OF inv ne eh])

section \<open>Reservation under the invariant\<close>
lemma block_cap_inv:
  assumes "queue_inv q"
  shows "\<exists>c. block_cap (memory q) (push_block q) = Some c \<and> sint c = int (cap_of q)"
  using assms
proof (cases rule: queue_inv_cases)
  case no_block
  then show ?thesis by (simp add: block_cap_def)
next
  case (block p b k)
  have "k < 63" using block(6) by simp
  then have "sint (2 ^ k :: 64 word) = 2 ^ k" by (rule sint_pow2)
  then show ?thesis using block by (simp add: block_cap_def mask_plus_1)
qed

lemma reserve_unfold:
  assumes "queue_inv q"
  shows "underscore_spmc_queue_reserve malloc q to_size =
    (if reserve_allowed q to_size then reserve_grow malloc q to_size
     else Some (push_block q, q))"
proof -
  from block_cap_inv [OF assms(1)] obtain c
    where c: "block_cap (memory q) (push_block q) = Some c" "sint c = int (cap_of q)" by blast
  show ?thesis using c
    by (simp add: underscore_spmc_queue_reserve_def reserve_allowed_def Let_def)
qed

lemma reserve_noop:
  assumes "queue_inv q" "\<not> reserve_allowed q to_size"
  shows "underscore_spmc_queue_reserve malloc q to_size = Some (push_block q, q)"
  using assms(2) unfolding reserve_unfold [OF assms(1)] by simp

lemma reserve_diverges:
  assumes "queue_inv q" "reserve_allowed q to_size" "2 ^ 62 < sint to_size"
  shows "underscore_spmc_queue_reserve malloc q to_size = None"
  using assms(2) new_cap_diverges [OF assms(3)] unfolding reserve_unfold [OF assms(1)]
  by (simp add: reserve_grow_def)

lemma reserve_malloc_fails:
  assumes "queue_inv q" "sint to_size \<le> 2 ^ 62"
  shows "underscore_spmc_queue_reserve None q to_size = Some (push_block q, q)"
proof -
  from new_cap_64 [OF assms(2)] obtain j where "reserve_new_cap 64 to_size = Some (2 ^ j)" by blast
  then show ?thesis unfolding reserve_unfold [OF assms(1)] by (simp add: reserve_grow_def)
qed

lemma queue_items_nth:
  assumes "load_block (memory q) p = Some b" "pop_block q = Some p"
    "i < unat (push_head q - pop_tail q)"
  shows "queue_items q ! i = block_items b (spmc_queue_slot b (pop_tail q + of_nat i))"
  using assms by (simp add: queue_items_def)

lemma queue_items_length:
  assumes "queue_inv q"
  shows "length (queue_items q) = unat (push_head q - pop_tail q)"
  using assms
proof (cases rule: queue_inv_cases)
  case no_block
  have "unat (push_head q - pop_tail q) \<le> 0" using queue_inv_count(1) [OF assms] no_block by simp
  then show ?thesis using no_block by (simp add: queue_items_def)
next
  case (block p b k)
  then show ?thesis by (simp add: queue_items_def)
qed

lemma reserve_grows:
  assumes inv: "queue_inv q" and al: "reserve_allowed q to_size" and sz: "sint to_size \<le> 2 ^ 62"
  shows "\<exists>j nb. 6 \<le> j \<and> j \<le> 62 \<and> sint to_size \<le> 2 ^ j \<and> (j = 6 \<or> 2 ^ (j - 1) < sint to_size) \<and>
     block_mask nb = mask j \<and> block_next nb = push_block q \<and>
     reserve_grow (Some fresh) q to_size
       = Some (Some (length (memory q)),
               q\<lparr>memory := memory q @ [Some nb], push_block := Some (length (memory q)),
                 pop_block := Some (length (memory q))\<rparr>) \<and>
     (\<forall>i<unat (push_head q - pop_tail q).
        block_items nb ((pop_tail q + of_nat i) AND mask j) = queue_items q ! i)"
proof -
  from new_cap_64 [OF sz] obtain j where j: "6 \<le> j" "j \<le> 62"
    "reserve_new_cap 64 to_size = Some (2 ^ j)" "sint to_size \<le> 2 ^ j"
    "j = 6 \<or> 2 ^ (j - 1) < sint to_size" by blast
  have m: "(2 ^ j :: 64 word) - 1 = mask j" by (simp add: mask_eq_decr_exp)
  let ?nb = "\<lparr>block_next = push_block q, block_mask = 2 ^ j - 1, block_items = fresh\<rparr>"
  have "int (cap_of q) < sint to_size" using al by (simp add: reserve_allowed_def)
  then have "int (cap_of q) < 2 ^ j" using j(4) by linarith
  then have capj': "cap_of q < 2 ^ j" by simp
  from inv show ?thesis
  proof (cases rule: queue_inv_cases)
    case no_block
    have "unat (push_head q - pop_tail q) \<le> 0" using queue_inv_count(1) [OF inv] no_block by simp
    then have n: "unat (push_head q - pop_tail q) = 0" by simp
    have g: "reserve_grow (Some fresh) q to_size
       = Some (Some (length (memory q)),
               q\<lparr>memory := memory q @ [Some ?nb], push_block := Some (length (memory q)),
                 pop_block := Some (length (memory q))\<rparr>)"
      using no_block j(3) by (simp add: reserve_grow_def reserve_install_def Let_def)
    show ?thesis
      using j(1,2,4,5) g n m by (intro exI [of _ j] exI [of _ ?nb]) simp
  next
    case (block p b k)
    let ?c = "reserve_copy ?nb b (pop_tail q) (push_head q)"
    have g: "reserve_grow (Some fresh) q to_size
       = Some (Some (length (memory q)),
               q\<lparr>memory := memory q @ [Some ?c], push_block := Some (length (memory q)),
                 pop_block := Some (length (memory q))\<rparr>)"
      using block j(3) by (simp add: reserve_grow_def reserve_install_def Let_def)
    have hdr: "block_mask ?c = mask j" "block_next ?c = push_block q"
      using reserve_copy_header [of ?nb b "pop_tail q" "push_head q"] m by simp_all
    have n: "unat (push_head q - pop_tail q) \<le> 2 ^ j"
      using queue_inv_count(1) [OF inv] capj' by linarith
    have mnb: "block_mask ?nb = mask j" using m by simp
    have cp: "\<forall>i<unat (push_head q - pop_tail q).
        block_items ?c (spmc_queue_slot ?nb (pop_tail q + of_nat i))
          = block_items b (spmc_queue_slot b (pop_tail q + of_nat i))"
      using reserve_copy_copied [OF refl n j(2) mnb] .
    have "\<forall>i<unat (push_head q - pop_tail q).
        block_items ?c ((pop_tail q + of_nat i) AND mask j) = queue_items q ! i"
    proof (intro allI impI)
      fix i assume i: "i < unat (push_head q - pop_tail q)"
      have "block_items ?c ((pop_tail q + of_nat i) AND mask j)
          = block_items ?c (spmc_queue_slot ?nb (pop_tail q + of_nat i))"
        using m by (simp add: spmc_queue_slot_def)
      also have "\<dots> = block_items b (spmc_queue_slot b (pop_tail q + of_nat i))"
        using cp i by blast
      also have "\<dots> = queue_items q ! i"
        using queue_items_nth [OF block(3) block(2) i] by simp
      finally show "block_items ?c ((pop_tail q + of_nat i) AND mask j) = queue_items q ! i" .
    qed
    then show ?thesis
      using j(1,2,4,5) g hdr by (intro exI [of _ j] exI [of _ ?c]) simp
  qed
qed

text \<open>The state after a successful growth.\<close>

lemma grown_state:
  assumes inv: "queue_inv q" and j: "6 \<le> j" "j \<le> 62" "cap_of q \<le> 2 ^ j"
    and nb: "block_mask nb = mask j" "block_next nb = push_block q"
    and cp: "\<forall>i<unat (push_head q - pop_tail q).
        block_items nb ((pop_tail q + of_nat i) AND mask j) = queue_items q ! i"
    and q': "q' = q\<lparr>memory := memory q @ [Some nb], push_block := Some (length (memory q)),
                 pop_block := Some (length (memory q))\<rparr>"
  shows "queue_inv q'" and "queue_items q' = queue_items q" and "cap_of q' = 2 ^ j"
proof -
  have ld: "load_block (memory q') (length (memory q)) = Some nb"
    unfolding q' by (simp add: load_block_def)
  have "j < 64" using j(2) by simp
  then have "unat (mask j :: 64 word) + 1 = 2 ^ j" by (rule unat_mask64)
  then show cap: "cap_of q' = 2 ^ j" using ld nb(1) unfolding q' by (simp add: cap_of_def)
  have lc: "live_chain (memory q) (push_block q)" using inv by (simp add: queue_inv_def)
  have lc': "live_chain (memory q @ [Some nb]) (Some (length (memory q)))"
    using lc j(1,2) nb by (rule live_chain_append)
  have "unat (pop_tail q - push_estimate_tail q) + unat (pop_estimate_head q - pop_tail q)
       + unat (push_head q - pop_estimate_head q) \<le> 2 ^ j"
    using queue_inv_dists(3) [OF inv] j(3) by linarith
  then show "queue_inv q'"
    using inv lc' unfolding queue_inv_def cap unfolding q' by simp
  show "queue_items q' = queue_items q"
  proof (rule nth_equalityI)
    show "length (queue_items q') = length (queue_items q)"
      using queue_items_length [OF inv] ld unfolding q' by (simp add: queue_items_def)
  next
    fix i assume "i < length (queue_items q')"
    then have i: "i < unat (push_head q - pop_tail q)"
      using ld unfolding q' by (simp add: queue_items_def)
    have "queue_items q' ! i = block_items nb (spmc_queue_slot nb (pop_tail q + of_nat i))"
      using ld i unfolding q' by (simp add: queue_items_def)
    also have "\<dots> = queue_items q ! i"
      using cp i nb(1) by (simp add: spmc_queue_slot_def)
    finally show "queue_items q' ! i = queue_items q ! i" .
  qed
qed

section \<open>Pushes under the invariant\<close>
lemma word_add_dist: "(t :: 64 word) + of_nat (unat (h - t)) = h"
  by simp

lemma queue_items_block:
  assumes "load_block (memory q) p = Some b" "pop_block q = Some p"
  shows "queue_items q = map (\<lambda>i. block_items b (spmc_queue_slot b (pop_tail q + of_nat i)))
               [0..<unat (push_head q - pop_tail q)]"
  using assms by (simp add: queue_items_def)

lemma push_store_inv:
  assumes inv: "queue_inv q" and room: "unat (push_head q - push_estimate_tail q) < cap_of q"
  shows "\<exists>q'. push_st_store q (push_block q) (push_head q) t item
            = Some (\<lparr>head = push_head q, tail = t, state = SPMC_QUEUE_OK\<rparr>, q') \<and>
          queue_inv q' \<and> queue_items q' = queue_items q @ [item] \<and> cap_of q' = cap_of q \<and>
          push_head q' = push_head q + 1 \<and> pop_tail q' = pop_tail q \<and>
          push_max_capacity q' = push_max_capacity q \<and> push_item_size q' = push_item_size q \<and>
          length (memory q') = length (memory q) \<and> push_block q' = push_block q"
  using inv
proof (cases rule: queue_inv_cases)
  case no_block
  then show ?thesis using room by simp
next
  case (block p b k)
  note d = queue_inv_dists [OF inv]
  let ?b = "b\<lparr>block_items := (block_items b)(spmc_queue_slot b (push_head q) := item)\<rparr>"
  let ?q = "q\<lparr>memory := (memory q)[p := Some ?b], push_head := push_head q + 1\<rparr>"
  let ?n = "unat (push_head q - pop_tail q)"
  have pl: "p < length (memory q)" using block(8) by simp
  have st: "push_st_store q (push_block q) (push_head q) t item
            = Some (\<lparr>head = push_head q, tail = t, state = SPMC_QUEUE_OK\<rparr>, ?q)"
    using block by (simp add: push_st_store_def Let_def)
  have ld: "load_block (memory ?q) p = Some ?b" using pl by (simp add: load_block_def)
  have "k < 64" using block(6) by simp
  then have um: "unat (mask k :: 64 word) + 1 = 2 ^ k" by (rule unat_mask64)
  have cap: "cap_of ?q = cap_of q" using ld block um by (simp add: cap_of_def)
  have c62: "cap_of q \<le> 2 ^ 62" using cap_of_le [OF inv] .
  have n: "?n < 2 ^ k" using d room block(7) by linarith
  have n64: "?n + 1 < 2 ^ 64" using n c62 block(7) by simp
  have d3: "unat (push_head q - pop_estimate_head q) + 1 < 2 ^ 64" using d room c62 by simp
  have d3': "unat (push_head q + 1 - pop_estimate_head q) = unat (push_head q - pop_estimate_head q) + 1"
    using d3 by (rule dist_suc_right)
  have n': "unat (push_head q + 1 - pop_tail q) = ?n + 1" using n64 by (rule dist_suc_right)
  have lc: "live_chain (memory q) (Some p)" using inv block(1) by (simp add: queue_inv_def)
  have lc': "live_chain ((memory q)[p := Some ?b]) (Some p)"
    using lc block(3) by (rule live_chain_update)
  have sum: "unat (pop_tail q - push_estimate_tail q) + unat (pop_estimate_head q - pop_tail q)
       + unat (push_head q + 1 - pop_estimate_head q) \<le> cap_of q"
    using d d3' room by linarith
  have inv': "queue_inv ?q"
    using inv lc' sum block(1,2) unfolding queue_inv_def cap by simp
  have k64: "k \<le> 64" using block(6) by simp
  have sl: "spmc_queue_slot ?b = spmc_queue_slot b" by (simp add: spmc_queue_slot_def fun_eq_iff)
  have hd: "pop_tail q + of_nat ?n = push_head q" by (rule word_add_dist)
  have old: "block_items ?b (spmc_queue_slot b (pop_tail q + of_nat i))
        = block_items b (spmc_queue_slot b (pop_tail q + of_nat i))" if i: "i < ?n" for i
  proof -
    have "(pop_tail q + of_nat i) AND mask k \<noteq> (pop_tail q + of_nat ?n) AND mask k"
      using k64 
    proof (rule slot_neq)
      show "i < 2 ^ k" using i n by simp
      show "?n < 2 ^ k" using n .
      show "i \<noteq> ?n" using i by simp
    qed
    then have "spmc_queue_slot b (pop_tail q + of_nat i) \<noteq> spmc_queue_slot b (push_head q)"
      unfolding hd by (simp add: spmc_queue_slot_def block(4))
    then show ?thesis by simp
  qed
  have items: "queue_items ?q = queue_items q @ [item]"
  proof -
    have pb: "pop_block ?q = Some p" using block(2) by simp
    have "queue_items ?q = map (\<lambda>i. block_items ?b (spmc_queue_slot b (pop_tail q + of_nat i)))
               [0..<Suc ?n]"
      unfolding queue_items_block [OF ld pb] sl using n' by simp
    also have "\<dots> = map (\<lambda>i. block_items ?b (spmc_queue_slot b (pop_tail q + of_nat i))) [0..<?n]
          @ [block_items ?b (spmc_queue_slot b (pop_tail q + of_nat ?n))]"
      by simp
    also have "\<dots> = map (\<lambda>i. block_items b (spmc_queue_slot b (pop_tail q + of_nat i))) [0..<?n]
          @ [block_items ?b (spmc_queue_slot b (pop_tail q + of_nat ?n))]"
      using old by simp
    also have "\<dots> = map (\<lambda>i. block_items b (spmc_queue_slot b (pop_tail q + of_nat i))) [0..<?n]
          @ [item]"
      unfolding hd by simp
    also have "\<dots> = queue_items q @ [item]"
      unfolding queue_items_block [OF block(3) block(2)] ..
    finally show ?thesis .
  qed
  show ?thesis
    using st inv' items cap block(1) by (intro exI [of _ ?q]) simp
qed

lemma queue_items_cong:
  "pop_block q' = pop_block q \<Longrightarrow> memory q' = memory q \<Longrightarrow> pop_tail q' = pop_tail q \<Longrightarrow>
   push_head q' = push_head q \<Longrightarrow> queue_items q' = queue_items q"
  by (simp add: queue_items_def cong: option.case_cong)

lemma refresh_inv:
  assumes inv: "queue_inv q"
  shows "queue_inv (q\<lparr>push_estimate_tail := pop_tail q\<rparr>)"
    and "queue_items (q\<lparr>push_estimate_tail := pop_tail q\<rparr>) = queue_items q"
    and "cap_of (q\<lparr>push_estimate_tail := pop_tail q\<rparr>) = cap_of q"
proof -
  show cap: "cap_of (q\<lparr>push_estimate_tail := pop_tail q\<rparr>) = cap_of q"
    by (rule cap_of_cong) simp_all
  show "queue_inv (q\<lparr>push_estimate_tail := pop_tail q\<rparr>)"
    using inv unfolding queue_inv_def cap by simp
  show "queue_items (q\<lparr>push_estimate_tail := pop_tail q\<rparr>) = queue_items q"
    by (rule queue_items_cong) simp_all
qed

lemma push_no_room_inv:
  assumes inv: "queue_inv q" and x: "unat (h - x) < 2 ^ 63"
  shows "push_no_room (memory q) (push_block q) h x = Some (cap_of q \<le> unat (h - x))"
  using inv
proof (cases rule: queue_inv_cases)
  case no_block
  then show ?thesis by (simp add: push_no_room_def)
next
  case (block p b k)
  have "k < 63" using block(6) by simp
  then have sm: "sint (mask k :: 64 word) = 2 ^ k - 1" by (rule sint_mask64)
  have g: "((2::int) ^ k - 1 < int n) = (2 ^ k \<le> n)" for n :: nat
  proof -
    have e: "int (2 ^ k) = (2::int) ^ k" by simp
    have "((2::int) ^ k - 1 < int n) = (int (2 ^ k) \<le> int n)" unfolding e by linarith
    then show ?thesis by (simp only: of_nat_le_iff)
  qed
  have "(sint (block_mask b) < sint (h - x)) = (cap_of q \<le> unat (h - x))"
    unfolding block(4) sm sint_unat_small [OF x] block(7) by (rule g)
  then show ?thesis using block by (simp add: push_no_room_def)
qed

lemma push_unfold:
  assumes inv: "queue_inv q"
  shows "spmc_queue_result_push_st malloc q item (push_item_size q) =
   (if unat (push_head q - push_estimate_tail q) < cap_of q
    then push_st_store q (push_block q) (push_head q) (push_estimate_tail q) item
    else if unat (push_head q - pop_tail q) < cap_of q
    then push_st_store (q\<lparr>push_estimate_tail := pop_tail q\<rparr>) (push_block q) (push_head q)
           (pop_tail q) item
    else (case underscore_spmc_queue_reserve malloc (q\<lparr>push_estimate_tail := pop_tail q\<rparr>)
                 (push_head q - pop_tail q + 1) of
            None \<Rightarrow> None
          | Some (new_block, q2) \<Rightarrow>
             if new_block = push_block q
             then Some (\<lparr>head = push_head q, tail = pop_tail q, state = SPMC_QUEUE_FULL\<rparr>, q2)
             else push_st_store q2 new_block (push_head q) (pop_tail q) item))"
proof -
  note s = queue_inv_small [OF inv]
  have r1: "push_no_room (memory q) (push_block q) (push_head q) (push_estimate_tail q)
      = Some (cap_of q \<le> unat (push_head q - push_estimate_tail q))"
    using inv s(3) by (rule push_no_room_inv)
  have r2: "push_no_room (memory q) (push_block q) (push_head q) (pop_tail q)
      = Some (cap_of q \<le> unat (push_head q - pop_tail q))"
    using inv s(2) by (rule push_no_room_inv)
  show ?thesis
  proof (cases "unat (push_head q - push_estimate_tail q) < cap_of q")
    case True
    then show ?thesis using r1 by (simp add: spmc_queue_result_push_st_def Let_def)
  next
    case False
    note F1 = this
    show ?thesis
    proof (cases "unat (push_head q - pop_tail q) < cap_of q")
      case True
      then show ?thesis using F1 r1 r2 by (simp add: spmc_queue_result_push_st_def Let_def)
    next
      case False
      then show ?thesis using F1 r1 r2 by (simp add: spmc_queue_result_push_st_def Let_def)
    qed
  qed
qed

lemma push_room:
  assumes inv: "queue_inv q" and room: "unat (push_head q - pop_tail q) < cap_of q"
  shows "\<exists>r q'. spmc_queue_result_push_st malloc q item (push_item_size q) = Some (r, q') \<and>
          state r = SPMC_QUEUE_OK \<and>
          queue_inv q' \<and> queue_items q' = queue_items q @ [item] \<and> cap_of q' = cap_of q \<and>
          push_head q' = push_head q + 1 \<and> pop_tail q' = pop_tail q \<and>
          push_max_capacity q' = push_max_capacity q \<and> push_item_size q' = push_item_size q \<and>
          length (memory q') = length (memory q) \<and> push_block q' = push_block q"
proof (cases "unat (push_head q - push_estimate_tail q) < cap_of q")
  case True
  from push_store_inv [OF inv True, of "push_estimate_tail q" item]
  show ?thesis unfolding push_unfold [OF inv] using True by auto
next
  case False
  let ?q = "q\<lparr>push_estimate_tail := pop_tail q\<rparr>"
  note r = refresh_inv [OF inv]
  have "unat (push_head ?q - push_estimate_tail ?q) < cap_of ?q" using room r(3) by simp
  from push_store_inv [OF r(1) this, of "pop_tail q" item]
  show ?thesis unfolding push_unfold [OF inv] using False room r(2,3) by auto
qed

lemma full_state:
  assumes inv: "queue_inv q" and full: "\<not> unat (push_head q - pop_tail q) < cap_of q"
  shows "unat (push_head q - pop_tail q) = cap_of q"
    and "q\<lparr>push_estimate_tail := pop_tail q\<rparr> = q"
    and "sint (push_head q - pop_tail q + 1) = int (cap_of q) + 1"
    and "\<not> unat (push_head q - push_estimate_tail q) < cap_of q"
    and "push_estimate_tail q = pop_tail q"
proof -
  note d = queue_inv_dists [OF inv]
  show n: "unat (push_head q - pop_tail q) = cap_of q" using d full by linarith
  have "unat (pop_tail q - push_estimate_tail q) = 0" using d full by linarith
  then have "pop_tail q = push_estimate_tail q" by (simp add: unat_eq_zero)
  then show "push_estimate_tail q = pop_tail q" by simp
  then show "q\<lparr>push_estimate_tail := pop_tail q\<rparr> = q" by simp
  show "\<not> unat (push_head q - push_estimate_tail q) < cap_of q" using d full by linarith
  have c: "cap_of q \<le> 2 ^ 62" using cap_of_le [OF inv] .
  have u1: "unat (1 :: 64 word) = 1" by simp
  have "unat (push_head q - pop_tail q) + unat (1 :: 64 word) < 2 ^ 64" unfolding u1 n using c by simp
  then have "unat (push_head q - pop_tail q + 1) = unat (push_head q - pop_tail q) + unat (1 :: 64 word)"
    by (rule unat_add_small)
  then have u: "unat (push_head q - pop_tail q + 1) = cap_of q + 1" unfolding u1 n .
  have "unat (push_head q - pop_tail q + 1) < 2 ^ 63" unfolding u using c by simp
  then have "sint (push_head q - pop_tail q + 1) = int (unat (push_head q - pop_tail q + 1))"
    by (rule sint_unat_small)
  then show "sint (push_head q - pop_tail q + 1) = int (cap_of q) + 1" unfolding u by simp
qed

lemma push_full_ceiling:
  assumes inv: "queue_inv q" and full: "\<not> unat (push_head q - pop_tail q) < cap_of q"
    and na: "\<not> reserve_allowed q (push_head q - pop_tail q + 1)"
  shows "spmc_queue_result_push_st malloc q item (push_item_size q)
     = Some (\<lparr>head = push_head q, tail = pop_tail q, state = SPMC_QUEUE_FULL\<rparr>, q)"
  unfolding push_unfold [OF inv] full_state(2) [OF inv full]
  using full full_state(4) [OF inv full] reserve_noop [OF inv na] by simp

lemma push_full_malloc:
  assumes inv: "queue_inv q" and full: "\<not> unat (push_head q - pop_tail q) < cap_of q"
    and c: "cap_of q < 2 ^ 62"
  shows "spmc_queue_result_push_st None q item (push_item_size q)
     = Some (\<lparr>head = push_head q, tail = pop_tail q, state = SPMC_QUEUE_FULL\<rparr>, q)"
proof -
  have "int (cap_of q) + 1 \<le> 2 ^ 62" using c by simp
  then have "sint (push_head q - pop_tail q + 1) \<le> 2 ^ 62"
    unfolding full_state(3) [OF inv full] .
  from reserve_malloc_fails [OF inv this] show ?thesis
    unfolding push_unfold [OF inv] full_state(2) [OF inv full]
    using full full_state(4) [OF inv full] by simp
qed

lemma push_diverges:
  assumes inv: "queue_inv q" and full: "\<not> unat (push_head q - pop_tail q) < cap_of q"
    and al: "reserve_allowed q (push_head q - pop_tail q + 1)"
    and c: "cap_of q = 2 ^ 62"
  shows "spmc_queue_result_push_st malloc q item (push_item_size q) = None"
proof -
  have "2 ^ 62 < sint (push_head q - pop_tail q + 1)"
    unfolding full_state(3) [OF inv full] c by simp
  from reserve_diverges [OF inv al this] show ?thesis
    unfolding push_unfold [OF inv] full_state(2) [OF inv full]
    using full full_state(4) [OF inv full] by simp
qed

lemma push_grows:
  assumes inv: "queue_inv q" and full: "\<not> unat (push_head q - pop_tail q) < cap_of q"
    and al: "reserve_allowed q (push_head q - pop_tail q + 1)"
    and c: "cap_of q < 2 ^ 62"
  shows "\<exists>r q' j. spmc_queue_result_push_st (Some fresh) q item (push_item_size q) = Some (r, q') \<and>
          state r = SPMC_QUEUE_OK \<and>
          queue_inv q' \<and> queue_items q' = queue_items q @ [item] \<and>
          cap_of q' = 2 ^ j \<and> 6 \<le> j \<and> j \<le> 62 \<and> cap_of q < 2 ^ j \<and>
          (j = 6 \<or> 2 ^ (j - 1) \<le> cap_of q) \<and>
          push_head q' = push_head q + 1 \<and> pop_tail q' = pop_tail q \<and>
          push_max_capacity q' = push_max_capacity q \<and> push_item_size q' = push_item_size q \<and>
          length (memory q') = Suc (length (memory q))"
proof -
  note fs = full_state [OF inv full]
  have "int (cap_of q) + 1 \<le> 2 ^ 62" using c by simp
  then have sz: "sint (push_head q - pop_tail q + 1) \<le> 2 ^ 62" unfolding fs(3) .
  from reserve_grows [OF inv al sz, of fresh] obtain j nb where j: "6 \<le> j" "j \<le> 62"
    "sint (push_head q - pop_tail q + 1) \<le> 2 ^ j"
    "j = 6 \<or> 2 ^ (j - 1) < sint (push_head q - pop_tail q + 1)"
    and nb: "block_mask nb = mask j" "block_next nb = push_block q"
    and g: "reserve_grow (Some fresh) q (push_head q - pop_tail q + 1)
       = Some (Some (length (memory q)),
               q\<lparr>memory := memory q @ [Some nb], push_block := Some (length (memory q)),
                 pop_block := Some (length (memory q))\<rparr>)"
    and cp: "\<forall>i<unat (push_head q - pop_tail q).
        block_items nb ((pop_tail q + of_nat i) AND mask j) = queue_items q ! i"
    by blast
  let ?q2 = "q\<lparr>memory := memory q @ [Some nb], push_block := Some (length (memory q)),
                 pop_block := Some (length (memory q))\<rparr>"
  have "int (cap_of q) + 1 \<le> 2 ^ j" using j(3) unfolding fs(3) .
  then have "int (cap_of q) < 2 ^ j" by linarith
  then have cj: "cap_of q < 2 ^ j" by simp
  then have cj': "cap_of q \<le> 2 ^ j" by simp
  have low: "j = 6 \<or> 2 ^ (j - 1) \<le> cap_of q"
  proof (cases "j = 6")
    case True
    then show ?thesis by simp
  next
    case False
    then have "2 ^ (j - 1) < int (cap_of q) + 1" using j(4) unfolding fs(3) by simp
    then have "(2::int) ^ (j - 1) \<le> int (cap_of q)" by linarith
    then have "(2::nat) ^ (j - 1) \<le> cap_of q" by simp
    then show ?thesis by simp
  qed
  note gs = grown_state [OF inv j(1,2) cj' nb cp refl]
  have ne: "Some (length (memory q)) \<noteq> push_block q"
  proof (cases "push_block q")
    case None
    then show ?thesis by simp
  next
    case (Some p)
    then have "live_chain (memory q) (Some p)" using inv by (simp add: queue_inv_def)
    from live_chain_cur [OF this] show ?thesis using Some by auto
  qed
  have room: "unat (push_head ?q2 - push_estimate_tail ?q2) < cap_of ?q2"
    using fs(1,5) cj gs(3) by simp
  from push_store_inv [OF gs(1) room, of "pop_tail q" item] obtain q' where
    q': "push_st_store ?q2 (push_block ?q2) (push_head ?q2) (pop_tail q) item
            = Some (\<lparr>head = push_head ?q2, tail = pop_tail q, state = SPMC_QUEUE_OK\<rparr>, q')"
      "queue_inv q'" "queue_items q' = queue_items ?q2 @ [item]" "cap_of q' = cap_of ?q2"
      "push_head q' = push_head ?q2 + 1" "pop_tail q' = pop_tail ?q2"
      "push_max_capacity q' = push_max_capacity ?q2" "push_item_size q' = push_item_size ?q2"
      "length (memory q') = length (memory ?q2)"
    by blast
  have "spmc_queue_result_push_st (Some fresh) q item (push_item_size q)
      = Some (\<lparr>head = push_head q, tail = pop_tail q, state = SPMC_QUEUE_OK\<rparr>, q')"
    unfolding push_unfold [OF inv] fs(2) reserve_unfold [OF inv]
    using full fs(4) al g ne q'(1) by simp
  then show ?thesis
    using q'(2-9) gs(2,3) j(1,2) cj low
    by (intro exI [of _ "\<lparr>head = push_head q, tail = pop_tail q, state = SPMC_QUEUE_OK\<rparr>"]
          exI [of _ q'] exI [of _ j]) simp
qed

lemma push_cases:
  assumes inv: "queue_inv q"
    and res: "spmc_queue_result_push_st malloc q item (push_item_size q) = Some (r, q')"
  shows "(state r = SPMC_QUEUE_FULL \<and> q' = q \<and> \<not> unat (push_head q - pop_tail q) < cap_of q \<and>
            (malloc = None \<or> \<not> reserve_allowed q (push_head q - pop_tail q + 1))) \<or>
         (state r = SPMC_QUEUE_OK \<and> queue_inv q' \<and> queue_items q' = queue_items q @ [item] \<and>
            push_head q' = push_head q + 1 \<and> pop_tail q' = pop_tail q \<and>
            push_max_capacity q' = push_max_capacity q \<and> push_item_size q' = push_item_size q \<and>
            (cap_of q' = cap_of q \<or>
               ((0 \<le> sint (push_max_capacity q) \<longrightarrow>
                   int (cap_of q) < sint (push_max_capacity q)) \<and>
                (\<exists>j. cap_of q' = 2 ^ j \<and> 6 \<le> j \<and> j \<le> 62 \<and> cap_of q < 2 ^ j \<and>
                   (j = 6 \<or> 2 ^ (j - 1) \<le> cap_of q)))))"
proof (cases "unat (push_head q - pop_tail q) < cap_of q")
  case True
  from push_room [OF inv True, of malloc item] show ?thesis using res by auto
next
  case False
  note full = this
  show ?thesis
  proof (cases "reserve_allowed q (push_head q - pop_tail q + 1)")
    case False
    from push_full_ceiling [OF inv full False, of malloc item] show ?thesis
      using res full False by auto
  next
    case True
    note al = this
    have c: "cap_of q < 2 ^ 62"
    proof (rule ccontr)
      assume "\<not> cap_of q < 2 ^ 62"
      then have "cap_of q = 2 ^ 62" using cap_of_le [OF inv] by simp
      from push_diverges [OF inv full al this, of malloc item] show False using res by simp
    qed
    show ?thesis
    proof (cases malloc)
      case None
      from push_full_malloc [OF inv full c, of item] show ?thesis
        using res full None by auto
    next
      case (Some fresh)
      have "0 \<le> sint (push_max_capacity q) \<longrightarrow> int (cap_of q) < sint (push_max_capacity q)"
        using al full_state(3) [OF inv full] by (auto simp: reserve_allowed_def)
      with push_grows [OF inv full al c, of fresh item] show ?thesis
        using res Some by auto
    qed
  qed
qed


lemma reserve_cases:
  assumes inv: "queue_inv q"
    and res: "underscore_spmc_queue_reserve malloc q n = Some (bp, q')"
  shows "(bp = push_block q \<and> q' = q \<and> (malloc = None \<or> \<not> reserve_allowed q n)) \<or>
         (bp \<noteq> push_block q \<and> reserve_allowed q n \<and> malloc \<noteq> None \<and>
          queue_inv q' \<and> queue_items q' = queue_items q \<and>
          push_head q' = push_head q \<and> pop_tail q' = pop_tail q \<and>
          push_max_capacity q' = push_max_capacity q \<and> push_block q' = bp \<and>
          (\<exists>j. cap_of q' = 2 ^ j \<and> 6 \<le> j \<and> j \<le> 62 \<and> sint n \<le> 2 ^ j \<and>
               (j = 6 \<or> 2 ^ (j - 1) < sint n)))"
proof (cases "reserve_allowed q n")
  case False
  from reserve_noop [OF inv False, of malloc] show ?thesis using res False by auto
next
  case True
  note al = this
  have sz: "sint n \<le> 2 ^ 62"
  proof (rule ccontr)
    assume "\<not> sint n \<le> 2 ^ 62"
    then have "2 ^ 62 < sint n" by simp
    from reserve_diverges [OF inv al this, of malloc] show False using res by simp
  qed
  show ?thesis
  proof (cases malloc)
    case None
    from reserve_malloc_fails [OF inv sz] show ?thesis using res None by auto
  next
    case (Some fresh)
    from reserve_grows [OF inv al sz, of fresh] obtain j nb where j: "6 \<le> j" "j \<le> 62"
      "sint n \<le> 2 ^ j" "j = 6 \<or> 2 ^ (j - 1) < sint n"
      and nb: "block_mask nb = mask j" "block_next nb = push_block q"
      and g: "reserve_grow (Some fresh) q n
         = Some (Some (length (memory q)),
               q\<lparr>memory := memory q @ [Some nb], push_block := Some (length (memory q)),
                 pop_block := Some (length (memory q))\<rparr>)"
      and cp: "\<forall>i<unat (push_head q - pop_tail q).
          block_items nb ((pop_tail q + of_nat i) AND mask j) = queue_items q ! i"
      by blast
    have "int (cap_of q) < sint n" using al by (simp add: reserve_allowed_def)
    then have "int (cap_of q) < 2 ^ j" using j(3) by linarith
    then have cj: "cap_of q \<le> 2 ^ j" by simp
    note gs = grown_state [OF inv j(1,2) cj nb cp refl]
    have ne: "Some (length (memory q)) \<noteq> push_block q"
    proof (cases "push_block q")
      case None
      then show ?thesis by simp
    next
      case (Some p)
      then have "live_chain (memory q) (Some p)" using inv by (simp add: queue_inv_def)
      from live_chain_cur [OF this] show ?thesis using Some by auto
    qed
    have "bp = Some (length (memory q))"
      and "q' = q\<lparr>memory := memory q @ [Some nb], push_block := Some (length (memory q)),
                 pop_block := Some (length (memory q))\<rparr>"
      using res g al Some unfolding reserve_unfold [OF inv] by auto
    then show ?thesis using gs ne al Some j by auto
  qed
qed

lemma capacity_inv:
  assumes "queue_inv q"
  shows "\<exists>c. spmc_queue_capacity q = Some c \<and> sint c = int (cap_of q)"
proof -
  from block_cap_inv [OF assms] obtain c
    where c: "block_cap (memory q) (push_block q) = Some c" "sint c = int (cap_of q)" by blast
  have "pop_block q = push_block q" using assms by (simp add: queue_inv_def)
  then have "spmc_queue_capacity q = block_cap (memory q) (push_block q)"
    by (simp add: spmc_queue_capacity_def block_cap_def)
  then show ?thesis using c by simp
qed

section \<open>Every call keeps the invariant and follows the list specification\<close>
lemma pow_pred_double: "j \<noteq> 6 \<Longrightarrow> 6 \<le> j \<Longrightarrow> (2::int) ^ j = 2 * 2 ^ (j - 1)"
  by (cases j) simp_all

lemma ceiling_grown:
  assumes c: "cap_of q' = 2 ^ j" and j: "6 \<le> j" "j = 6 \<or> 2 ^ (j - 1) < x"
    and mc: "0 \<le> sint (push_max_capacity q') \<longrightarrow> x \<le> sint (push_max_capacity q')"
    and x: "0 < x"
  shows "ceiling_inv q'"
proof (cases "j = 6")
  case True
  then have "cap_of q' \<le> 64" using c by simp
  moreover have "0 \<le> sint (push_max_capacity q') \<longrightarrow> 0 < sint (push_max_capacity q')"
    using mc x by linarith
  ultimately show ?thesis by (simp add: ceiling_inv_def)
next
  case False
  then have lt: "2 ^ (j - 1) < x" using j(2) by simp
  have d: "(2::int) ^ j = 2 * 2 ^ (j - 1)" using False j(1) by (rule pow_pred_double)
  have "int (cap_of q') = 2 ^ j" using c by simp
  then have "0 \<le> sint (push_max_capacity q') \<longrightarrow> int (cap_of q') < 2 * sint (push_max_capacity q')"
    using lt mc d by linarith
  moreover have "0 \<le> sint (push_max_capacity q') \<longrightarrow> 0 < sint (push_max_capacity q')"
    using mc x by linarith
  ultimately show ?thesis by (simp add: ceiling_inv_def)
qed

lemma ceiling_inv_cong:
  "cap_of q' = cap_of q \<Longrightarrow> push_max_capacity q' = push_max_capacity q \<Longrightarrow>
   ceiling_inv q \<Longrightarrow> ceiling_inv q'"
  by (simp add: ceiling_inv_def)

lemma pop_step:
  assumes inv: "queue_inv q"
    and op: "op = Op_pop_st item \<or> op = Op_pop_weak item \<or> op = Op_pop item"
  shows "step op q =
     (if push_head q = pop_tail q then Some (Ev_pop SPMC_QUEUE_EMPTY item, q)
      else Some (Ev_pop SPMC_QUEUE_OK (map_option (\<lambda>_. hd (queue_items q)) item),
                 q\<lparr>pop_estimate_head := (if pop_estimate_head q = pop_tail q then push_head q
                                          else pop_estimate_head q),
                   pop_tail := pop_tail q + 1\<rparr>))"
proof (cases "push_head q = pop_tail q")
  case True
  have "pop_estimate_head q = push_head q" using est_head_eq [OF inv True] True by simp
  then have "q\<lparr>pop_estimate_head := push_head q\<rparr> = q" by simp
  then show ?thesis
    using op True pop_st_empty [OF inv True, of item] pop_weak_empty [OF inv True, of id item]
      pop_empty [OF inv True, of item]
    by auto
next
  case False
  show ?thesis
    using op False pop_st_ok [OF inv False refl, of item] pop_weak_ok [OF inv False refl, of item]
      pop_ok [OF inv False refl, of item]
    by auto
qed

lemma ceiling_inv_popped:
  "ceiling_inv (q\<lparr>pop_estimate_head := e, pop_tail := t\<rparr>) = ceiling_inv q"
  by (simp add: ceiling_inv_def cap_of_def cong: option.case_cong)

lemma pop_step_inv:
  assumes inv: "queue_inv q" and st: "step op q = Some (ev, q')"
    and op: "op = Op_pop_st item \<or> op = Op_pop_weak item \<or> op = Op_pop item"
  shows "queue_inv q' \<and> queue_items q' = apply_event (queue_items q) ev \<and>
         event_allowed (queue_items q) ev \<and>
         (ceiling_inv q \<or> is_init op \<longrightarrow> ceiling_inv q') \<and>
         (\<not> is_init op \<longrightarrow> push_max_capacity q' = push_max_capacity q)"
proof (cases "push_head q = pop_tail q")
  case True
  then have "length (queue_items q) = 0" using queue_items_length [OF inv] by simp
  moreover have "ev = Ev_pop SPMC_QUEUE_EMPTY item" "q' = q"
    using st True unfolding pop_step [OF inv op] by simp_all
  ultimately show ?thesis using inv op by auto
next
  case False
  let ?eh = "if pop_estimate_head q = pop_tail q then push_head q else pop_estimate_head q"
  have "length (queue_items q) \<noteq> 0"
    using False queue_items_length [OF inv] by (simp add: unat_eq_zero)
  then have ne: "queue_items q \<noteq> []" by simp
  have ev: "ev = Ev_pop SPMC_QUEUE_OK (map_option (\<lambda>_. hd (queue_items q)) item)"
    and q': "q' = q\<lparr>pop_estimate_head := ?eh, pop_tail := pop_tail q + 1\<rparr>"
    using st False unfolding pop_step [OF inv op] by simp_all
  note ps = popped_state [OF inv False refl q']
  have c: "ceiling_inv q' = ceiling_inv q" unfolding q' by (rule ceiling_inv_popped)
  have m: "push_max_capacity q' = push_max_capacity q" unfolding q' by simp
  have al: "event_allowed (queue_items q) ev" unfolding ev using ne by (cases item) simp_all
  have ap: "apply_event (queue_items q) ev = tl (queue_items q)" unfolding ev by simp
  show ?thesis using ps(1,2) c m al ap op by auto
qed

lemma step_inv:
  assumes inv: "queue_inv q" and st: "step op q = Some (ev, q')"
  shows "queue_inv q' \<and> queue_items q' = apply_event (queue_items q) ev \<and>
         event_allowed (queue_items q) ev \<and>
         (ceiling_inv q \<or> is_init op \<longrightarrow> ceiling_inv q') \<and>
         (\<not> is_init op \<longrightarrow> push_max_capacity q' = push_max_capacity q)"
proof (cases op)
  case (Op_init sz mc)
  then have i: "spmc_queue_init q sz mc = Some q'" and ev: "ev = Ev_init" using st by auto
  note p = init_preserves [OF inv i]
  have "pop_block q' = None" using p by (simp add: queue_inv_def)
  then have "queue_items q' = []" by (simp add: queue_items_def)
  moreover have "ceiling_inv q'" using p by (simp add: ceiling_inv_def)
  ultimately show ?thesis using p ev Op_init by simp
next
  case (Op_reserve m n)
  then obtain bp where r: "underscore_spmc_queue_reserve m q n = Some (bp, q')"
    and ev: "ev = Ev_reserve"
    using st by (auto simp: spmc_queue_reserve_def)
  from reserve_cases [OF inv r] show ?thesis
  proof
    assume "bp = push_block q \<and> q' = q \<and> (m = None \<or> \<not> reserve_allowed q n)"
    then show ?thesis using inv ev Op_reserve by simp
  next
    assume a: "bp \<noteq> push_block q \<and> reserve_allowed q n \<and> m \<noteq> None \<and>
          queue_inv q' \<and> queue_items q' = queue_items q \<and>
          push_head q' = push_head q \<and> pop_tail q' = pop_tail q \<and>
          push_max_capacity q' = push_max_capacity q \<and> push_block q' = bp \<and>
          (\<exists>j. cap_of q' = 2 ^ j \<and> 6 \<le> j \<and> j \<le> 62 \<and> sint n \<le> 2 ^ j \<and>
               (j = 6 \<or> 2 ^ (j - 1) < sint n))"
    then obtain j where j: "cap_of q' = 2 ^ j" "6 \<le> j" "j = 6 \<or> 2 ^ (j - 1) < sint n" by blast
    have "0 \<le> sint (push_max_capacity q') \<longrightarrow> sint n \<le> sint (push_max_capacity q')"
      using a by (auto simp: reserve_allowed_def)
    moreover have "0 < sint n" using a by (auto simp: reserve_allowed_def)
    ultimately have "ceiling_inv q'" using j ceiling_grown by blast
    then show ?thesis using a ev Op_reserve by simp
  qed
next
  case (Op_push_st m item)
  then obtain r where r: "spmc_queue_result_push_st m q item (push_item_size q) = Some (r, q')"
    and ev: "ev = Ev_push item (state r)"
    using st by auto
  from push_cases [OF inv r] show ?thesis
  proof
    assume "state r = SPMC_QUEUE_FULL \<and> q' = q \<and> \<not> unat (push_head q - pop_tail q) < cap_of q \<and>
            (m = None \<or> \<not> reserve_allowed q (push_head q - pop_tail q + 1))"
    then show ?thesis using inv ev Op_push_st by simp
  next
    assume a: "state r = SPMC_QUEUE_OK \<and> queue_inv q' \<and> queue_items q' = queue_items q @ [item] \<and>
            push_head q' = push_head q + 1 \<and> pop_tail q' = pop_tail q \<and>
            push_max_capacity q' = push_max_capacity q \<and> push_item_size q' = push_item_size q \<and>
            (cap_of q' = cap_of q \<or>
               ((0 \<le> sint (push_max_capacity q) \<longrightarrow>
                   int (cap_of q) < sint (push_max_capacity q)) \<and>
                (\<exists>j. cap_of q' = 2 ^ j \<and> 6 \<le> j \<and> j \<le> 62 \<and> cap_of q < 2 ^ j \<and>
                   (j = 6 \<or> 2 ^ (j - 1) \<le> cap_of q))))"
    have "ceiling_inv q \<longrightarrow> ceiling_inv q'"
    proof (cases "cap_of q' = cap_of q")
      case True
      then show ?thesis using a ceiling_inv_cong by blast
    next
      case False
      then obtain j where j: "cap_of q' = 2 ^ j" "6 \<le> j" "j = 6 \<or> 2 ^ (j - 1) \<le> cap_of q"
        and mc: "0 \<le> sint (push_max_capacity q) \<longrightarrow> int (cap_of q) < sint (push_max_capacity q)"
        using a by blast
      have j': "j = 6 \<or> 2 ^ (j - 1) < int (cap_of q) + 1"
      proof (cases "j = 6")
        case True
        then show ?thesis by simp
      next
        case False
        then have "2 ^ (j - 1) \<le> cap_of q" using j(3) by simp
        then have "int (2 ^ (j - 1)) \<le> int (cap_of q)" by (simp only: of_nat_le_iff)
        then show ?thesis by simp
      qed
      have "0 \<le> sint (push_max_capacity q') \<longrightarrow> int (cap_of q) + 1 \<le> sint (push_max_capacity q')"
        using mc a by auto
      moreover have "0 < int (cap_of q) + 1" by simp
      ultimately have "ceiling_inv q'" using j(1,2) j' ceiling_grown by blast
      then show ?thesis by simp
    qed
    then show ?thesis using a ev Op_push_st by simp
  qed
next
  case (Op_pop_st item)
  then have "op = Op_pop_st item \<or> op = Op_pop_weak item \<or> op = Op_pop item" by simp
  with inv st show ?thesis by (rule pop_step_inv)
next
  case (Op_pop_weak item)
  then have "op = Op_pop_st item \<or> op = Op_pop_weak item \<or> op = Op_pop item" by simp
  with inv st show ?thesis by (rule pop_step_inv)
next
  case (Op_pop item)
  then have "op = Op_pop_st item \<or> op = Op_pop_weak item \<or> op = Op_pop item" by simp
  with inv st show ?thesis by (rule pop_step_inv)
qed

text \<open>In a state that satisfies the invariant no call dereferences a dangling pointer. The
  only calls without a result are an initialisation whose item size fails the assertion,
  and a reservation or a push that asks for more than \<open>2 ^ 62\<close> slots within the ceiling,
  where the capacity loop never ends.\<close>

lemma step_no_result:
  assumes inv: "queue_inv q" and st: "step op q = None"
  shows "(\<exists>sz mc. op = Op_init sz mc \<and> \<not> (0 < sint sz \<and> sint sz \<le> sint UINT32_MAX)) \<or>
         (\<exists>m n. op = Op_reserve m n \<and> reserve_allowed q n \<and> 2 ^ 62 < sint n) \<or>
         (\<exists>m x. op = Op_push_st m x \<and> cap_of q = 2 ^ 62 \<and>
                 unat (push_head q - pop_tail q) = 2 ^ 62 \<and>
                 reserve_allowed q (push_head q - pop_tail q + 1))"
proof (cases op)
  case (Op_init sz mc)
  then have "spmc_queue_init q sz mc = None" using st by simp
  then have "\<not> (0 < sint sz \<and> sint sz \<le> sint UINT32_MAX)"
    unfolding init_inv [OF inv] by (simp split: if_splits)
  then show ?thesis using Op_init by simp
next
  case (Op_reserve m n)
  then have r: "underscore_spmc_queue_reserve m q n = None"
    using st by (simp add: spmc_queue_reserve_def)
  have al: "reserve_allowed q n"
  proof (rule ccontr)
    assume "\<not> reserve_allowed q n"
    from reserve_noop [OF inv this, of m] show False using r by simp
  qed
  have "2 ^ 62 < sint n"
  proof (rule ccontr)
    assume "\<not> 2 ^ 62 < sint n"
    then have sz: "sint n \<le> 2 ^ 62" by simp
    show False
    proof (cases m)
      case None
      then show ?thesis using reserve_malloc_fails [OF inv sz] r by simp
    next
      case (Some fresh)
      from reserve_grows [OF inv al sz, of fresh] show ?thesis
        using r al Some unfolding reserve_unfold [OF inv] by auto
    qed
  qed
  then show ?thesis using al Op_reserve by simp
next
  case (Op_push_st m x)
  then have p: "spmc_queue_result_push_st m q x (push_item_size q) = None" using st by simp
  have full: "\<not> unat (push_head q - pop_tail q) < cap_of q"
  proof
    assume "unat (push_head q - pop_tail q) < cap_of q"
    from push_room [OF inv this, of m x] show False using p by auto
  qed
  have al: "reserve_allowed q (push_head q - pop_tail q + 1)"
  proof (rule ccontr)
    assume "\<not> reserve_allowed q (push_head q - pop_tail q + 1)"
    from push_full_ceiling [OF inv full this, of m x] show False using p by simp
  qed
  have c: "cap_of q = 2 ^ 62"
  proof (rule ccontr)
    assume "cap_of q \<noteq> 2 ^ 62"
    then have c: "cap_of q < 2 ^ 62" using cap_of_le [OF inv] by simp
    show False
    proof (cases m)
      case None
      then show ?thesis using push_full_malloc [OF inv full c, of x] p by simp
    next
      case (Some fresh)
      from push_grows [OF inv full al c, of fresh x] show ?thesis using p Some by auto
    qed
  qed
  then show ?thesis using full_state(1) [OF inv full] al Op_push_st by simp
next
  case (Op_pop_st item)
  then show ?thesis using st pop_step [OF inv, of op item] by (simp split: if_splits)
next
  case (Op_pop_weak item)
  then show ?thesis using st pop_step [OF inv, of op item] by (simp split: if_splits)
next
  case (Op_pop item)
  then show ?thesis using st pop_step [OF inv, of op item] by (simp split: if_splits)
qed

lemma count_apply:
  assumes "event_allowed xs ev"
  shows "int (length (apply_event xs ev)) = count_event (int (length xs)) ev"
proof (cases ev)
  case (Ev_pop s y)
  show ?thesis
  proof (cases "s = SPMC_QUEUE_OK")
    case True
    then have "xs \<noteq> []" using assms Ev_pop by simp
    then have "1 \<le> length xs" by (cases xs) simp_all
    then have "int (length xs - 1) = int (length xs) - int 1" by (rule of_nat_diff)
    then show ?thesis using Ev_pop True by simp
  next
    case False
    then show ?thesis using Ev_pop by simp
  qed
qed simp_all

lemma run_inv:
  assumes "queue_inv q" "run ops q = Some (evs, q')"
  shows "queue_inv q' \<and> queue_items q' = foldl apply_event (queue_items q) evs \<and>
         int (length (queue_items q')) = foldl count_event (int (length (queue_items q))) evs \<and>
         (ceiling_inv q \<longrightarrow> ceiling_inv q') \<and>
         ((\<forall>op\<in>set ops. \<not> is_init op) \<longrightarrow> push_max_capacity q' = push_max_capacity q)"
  using assms
proof (induction ops arbitrary: q evs)
  case Nil
  then show ?case by simp
next
  case (Cons op ops)
  from Cons.prems(2) obtain e q1 es where s: "step op q = Some (e, q1)"
    and r: "run ops q1 = Some (es, q')" and evs: "evs = e # es"
    by (auto split: option.splits)
  note si = step_inv [OF Cons.prems(1) s]
  then have inv1: "queue_inv q1" by simp
  note ih = Cons.IH [OF inv1 r]
  have c: "int (length (queue_items q1)) = count_event (int (length (queue_items q))) e"
    using si count_apply [of "queue_items q" e] by simp
  have 1: "queue_items q' = foldl apply_event (queue_items q) evs"
    using si ih evs by simp
  have "int (length (queue_items q')) = foldl count_event (int (length (queue_items q1))) es"
    using ih by blast
  then have 2: "int (length (queue_items q')) = foldl count_event (int (length (queue_items q))) evs"
    unfolding c evs by simp
  have 3: "ceiling_inv q \<longrightarrow> ceiling_inv q'" using si ih by blast
  have 4: "(\<forall>op\<in>set (op # ops). \<not> is_init op) \<longrightarrow> push_max_capacity q' = push_max_capacity q"
    using si ih by simp
  show ?case using ih 1 2 3 4 by blast
qed

lemma zeroed_items: "queue_items (zeroed m) = []"
  by (simp add: queue_items_def zeroed_def)

lemma ceiling_inv_zeroed: "ceiling_inv (zeroed m)"
  by (simp add: ceiling_inv_def cap_of_def zeroed_def)

lemma reach_inv:
  assumes "run ops (zeroed []) = Some (evs, q)"
  shows "queue_inv q" and "int (length (queue_items q)) = items_present evs"
    and "queue_items q = foldl apply_event [] evs" and "ceiling_inv q"
proof -
  note r = run_inv [OF queue_inv_zeroed_Nil assms]
  show "queue_inv q" using r by simp
  have "int (length (queue_items q))
      = foldl count_event (int (length (queue_items (zeroed [] :: 'a SPMC_Queue)))) evs"
    using r by blast
  then show "int (length (queue_items q)) = items_present evs"
    unfolding zeroed_items items_present_def by simp
  have "queue_items q = foldl apply_event (queue_items (zeroed [] :: 'a SPMC_Queue)) evs"
    using r by blast
  then show "queue_items q = foldl apply_event [] evs" unfolding zeroed_items .
  show "ceiling_inv q" using r ceiling_inv_zeroed by blast
qed

text \<open>
  Claim C2. In every state that a sequential run of the interface reaches from a zeroed
  queue (any calls of init, reserve, push_st, pop_st, pop_weak and pop, in any order), the
  signed 64-bit difference \<open>head - tail\<close> is not negative, equals the number of items
  logically present (pushes that answered OK minus pops that answered OK since the last
  initialisation), and does not exceed what \<^verbatim>\<open>spmc_queue_capacity\<close> returns.
\<close>

theorem head_minus_tail_invariant:
  assumes "run ops (zeroed []) = Some (evs, q)"
  shows "0 \<le> sint (push_head q - pop_tail q) \<and>
         sint (push_head q - pop_tail q) = items_present evs \<and>
         (\<exists>c. spmc_queue_capacity q = Some c \<and> sint (push_head q - pop_tail q) \<le> sint c)"
proof -
  note r = reach_inv [OF assms]
  note c = queue_inv_count [OF r(1)]
  have l: "length (queue_items q) = unat (push_head q - pop_tail q)"
    using r(1) by (rule queue_items_length)
  from capacity_inv [OF r(1)] obtain cw where cw: "spmc_queue_capacity q = Some cw"
    "sint cw = int (cap_of q)" by blast
  have "sint (push_head q - pop_tail q) \<le> sint cw"
    unfolding c(2) cw(2) using c(1) by (simp only: of_nat_le_iff)
  moreover have "sint (push_head q - pop_tail q) = items_present evs"
    unfolding c(2) using r(2) by (simp only: l)
  moreover have "0 \<le> sint (push_head q - pop_tail q)"
    unfolding c(2) by (rule of_nat_0_le_iff)
  ultimately show ?thesis using cw(1) by blast
qed

lemmas eval_defs = spmc_queue_init_def spmc_queue_deinit_def zeroed_def free_chain.simps UINT32_MAX_def
     spmc_queue_reserve_def underscore_spmc_queue_reserve_def reserve_grow_def reserve_install_def
     block_cap_def INT64_MAX_def Let_def reserve_new_cap.simps reserve_copy.simps
     spmc_queue_result_push_st_def push_no_room_def push_st_store_def load_block_def spmc_queue_slot_def
     spmc_queue_result_pop_st_def pop_st_take_def pop_copy_def
     spmc_queue_result_pop_weak_def pop_weak_take_def spmc_queue_capacity_def
     spmc_queue_count_def count_loop.simps items_present_def zero_filled_def

theorem head_minus_tail_invariant_witness:
  "\<exists>evs q. run [Op_init 8 (- 1), Op_push_st (Some (\<lambda>_. 0)) 5, Op_push_st None 6, Op_pop_st (Some 0)]
            (zeroed [] :: u64 SPMC_Queue) = Some (evs, q) \<and>
     0 \<le> sint (push_head q - pop_tail q) \<and>
     sint (push_head q - pop_tail q) = items_present evs \<and> items_present evs = 1 \<and>
     (\<exists>c. spmc_queue_capacity q = Some c \<and> sint (push_head q - pop_tail q) \<le> sint c)"
proof -
  have "\<exists>evs q. run [Op_init 8 (- 1), Op_push_st (Some (\<lambda>_. 0)) 5, Op_push_st None 6, Op_pop_st (Some 0)]
            (zeroed [] :: u64 SPMC_Queue) = Some (evs, q) \<and> items_present evs = 1"
    by (simp add: eval_defs)
  then obtain evs q where r: "run [Op_init 8 (- 1), Op_push_st (Some (\<lambda>_. 0)) 5, Op_push_st None 6, Op_pop_st (Some 0)]
            (zeroed [] :: u64 SPMC_Queue) = Some (evs, q)" "items_present evs = 1" by blast
  from head_minus_tail_invariant [OF r(1)] r show ?thesis by blast
qed

section \<open>FIFO order\<close>
lemma run_append:
  "run (xs @ ys) q =
     (case run xs q of
        None \<Rightarrow> None
      | Some (es, q1) \<Rightarrow>
         (case run ys q1 of None \<Rightarrow> None | Some (es', q2) \<Rightarrow> Some (es @ es', q2)))"
  by (induction xs arbitrary: q) (auto split: option.splits)

lemma pop_all:
  assumes "queue_inv q" "n = length (queue_items q)"
  shows "\<exists>q'. run (replicate n (Op_pop_st (Some d))) q
            = Some (map (\<lambda>x. Ev_pop SPMC_QUEUE_OK (Some x)) (queue_items q), q') \<and>
          queue_inv q' \<and> queue_items q' = []"
  using assms
proof (induction n arbitrary: q)
  case 0
  then show ?case by simp
next
  case (Suc n)
  have l: "length (queue_items q) = unat (push_head q - pop_tail q)"
    using Suc.prems(1) by (rule queue_items_length)
  have ne: "push_head q \<noteq> pop_tail q"
  proof
    assume "push_head q = pop_tail q"
    then show False using l Suc.prems(2) by simp
  qed
  let ?q1 = "q\<lparr>pop_estimate_head := (if pop_estimate_head q = pop_tail q then push_head q
                                          else pop_estimate_head q),
                   pop_tail := pop_tail q + 1\<rparr>"
  have st: "step (Op_pop_st (Some d)) q
      = Some (Ev_pop SPMC_QUEUE_OK (Some (hd (queue_items q))), ?q1)"
    using ne pop_step [OF Suc.prems(1), of "Op_pop_st (Some d)" "Some d"] by simp
  note ps = popped_state [OF Suc.prems(1) ne refl refl]
  have n: "n = length (queue_items ?q1)" using ps(2) Suc.prems(2) by simp
  from Suc.IH [OF ps(1) n] obtain q' where q': "run (replicate n (Op_pop_st (Some d))) ?q1
            = Some (map (\<lambda>x. Ev_pop SPMC_QUEUE_OK (Some x)) (queue_items ?q1), q')"
    "queue_inv q'" "queue_items q' = []" by blast
  have items: "queue_items q = hd (queue_items q) # tl (queue_items q)"
    using Suc.prems(2) by (cases "queue_items q") simp_all
  have "map (\<lambda>x. Ev_pop SPMC_QUEUE_OK (Some x)) (queue_items q)
      = Ev_pop SPMC_QUEUE_OK (Some (hd (queue_items q)))
          # map (\<lambda>x. Ev_pop SPMC_QUEUE_OK (Some x)) (queue_items ?q1)"
    unfolding ps(2) by (subst items) simp
  then have "run (replicate (Suc n) (Op_pop_st (Some d))) q
            = Some (map (\<lambda>x. Ev_pop SPMC_QUEUE_OK (Some x)) (queue_items q), q')"
    using st q'(1) by (simp del: step.simps)
  then show ?case using q'(2,3) by blast
qed

lemma foldl_pushes:
  "foldl apply_event xs (map (\<lambda>(m, x). Ev_push x SPMC_QUEUE_OK) mxs) = xs @ map snd mxs"
  by (induction mxs arbitrary: xs) (auto split: prod.splits)

text \<open>
  Claim C1. FIFO order. Take any reachable empty queue and any sequence of items, each
  pushed by \<^verbatim>\<open>push_st\<close> with the answer OK (the queue growing where it has to). Then as
  many calls of \<^verbatim>\<open>pop_st\<close> as items were pushed all answer OK and hand out exactly
  those items in push order, and the next \<^verbatim>\<open>pop_st\<close> answers EMPTY and leaves the
  caller's buffer as it was.
\<close>

theorem fifo_order:
  assumes reach: "run ops0 (zeroed []) = Some (evs0, q0)"
    and empty: "push_head q0 = pop_tail q0"
    and pushes: "run (map (\<lambda>(m, x). Op_push_st m x) mxs) q0
                   = Some (map (\<lambda>(m, x). Ev_push x SPMC_QUEUE_OK) mxs, q1)"
  shows "\<exists>q2. run (replicate (length mxs) (Op_pop_st (Some d)) @ [Op_pop_st (Some d)]) q1
           = Some (map (\<lambda>(m, x). Ev_pop SPMC_QUEUE_OK (Some x)) mxs
                     @ [Ev_pop SPMC_QUEUE_EMPTY (Some d)], q2)"
proof -
  have inv0: "queue_inv q0" using reach by (rule reach_inv(1))
  have "length (queue_items q0) = 0" using queue_items_length [OF inv0] empty by simp
  then have e0: "queue_items q0 = []" by simp
  note r = run_inv [OF inv0 pushes]
  have inv1: "queue_inv q1" using r by blast
  have "queue_items q1 = foldl apply_event (queue_items q0) (map (\<lambda>(m, x). Ev_push x SPMC_QUEUE_OK) mxs)"
    using r by blast
  then have items: "queue_items q1 = map snd mxs" unfolding foldl_pushes e0 by simp
  then have n: "length mxs = length (queue_items q1)" by simp
  from pop_all [OF inv1 n, of d] obtain q2 where q2:
    "run (replicate (length mxs) (Op_pop_st (Some d))) q1
            = Some (map (\<lambda>x. Ev_pop SPMC_QUEUE_OK (Some x)) (queue_items q1), q2)"
    "queue_inv q2" "queue_items q2 = []" by blast
  have m: "map (\<lambda>x. Ev_pop SPMC_QUEUE_OK (Some x)) (queue_items q1)
      = map (\<lambda>(m, x). Ev_pop SPMC_QUEUE_OK (Some x)) mxs"
    unfolding items by (simp add: comp_def case_prod_beta)
  have "length (queue_items q2) = 0" using q2(3) by simp
  then have "unat (push_head q2 - pop_tail q2) = 0" using queue_items_length [OF q2(2)] by simp
  then have e2: "push_head q2 = pop_tail q2" by (simp add: unat_eq_zero)
  have last: "run [Op_pop_st (Some d)] q2 = Some ([Ev_pop SPMC_QUEUE_EMPTY (Some d)], q2)"
    using e2 pop_step [OF q2(2), of "Op_pop_st (Some d)" "Some d"] by (simp del: step.simps)
  show ?thesis
    unfolding run_append using q2(1) last m by (intro exI [of _ q2]) simp
qed

theorem fifo_order_witness:
  "\<exists>q0 q1 q2.
     run [Op_init 8 (- 1)] (zeroed [] :: u64 SPMC_Queue) = Some ([Ev_init], q0) \<and>
     push_head q0 = pop_tail q0 \<and>
     run (map (\<lambda>(m, x). Op_push_st m x) [(Some (\<lambda>_. 0), 10), (None, 20), (None, 30)]) q0
       = Some (map (\<lambda>(m, x). Ev_push x SPMC_QUEUE_OK)
                 ([(Some (\<lambda>_. 0), 10), (None, 20), (None, 30)] :: (u64 malloc_result \<times> u64) list), q1) \<and>
     run (replicate 3 (Op_pop_st (Some 0)) @ [Op_pop_st (Some 0)]) q1
       = Some ([Ev_pop SPMC_QUEUE_OK (Some 10), Ev_pop SPMC_QUEUE_OK (Some 20),
                Ev_pop SPMC_QUEUE_OK (Some 30), Ev_pop SPMC_QUEUE_EMPTY (Some 0)], q2)"
proof -
  have "\<exists>q0. run [Op_init 8 (- 1)] (zeroed [] :: u64 SPMC_Queue) = Some ([Ev_init], q0) \<and>
     push_head q0 = pop_tail q0 \<and>
     (\<exists>q1. run (map (\<lambda>(m, x). Op_push_st m x) [(Some (\<lambda>_. 0), 10), (None, 20), (None, 30)]) q0
       = Some (map (\<lambda>(m, x). Ev_push x SPMC_QUEUE_OK)
                 ([(Some (\<lambda>_. 0), 10), (None, 20), (None, 30)] :: (u64 malloc_result \<times> u64) list), q1))"
    by (simp add: eval_defs)
  then obtain q0 q1 where a: "run [Op_init 8 (- 1)] (zeroed [] :: u64 SPMC_Queue) = Some ([Ev_init], q0)"
    "push_head q0 = pop_tail q0"
    "run (map (\<lambda>(m, x). Op_push_st m x) [(Some (\<lambda>_. 0), 10), (None, 20), (None, 30)]) q0
       = Some (map (\<lambda>(m, x). Ev_push x SPMC_QUEUE_OK)
                 ([(Some (\<lambda>_. 0), 10), (None, 20), (None, 30)] :: (u64 malloc_result \<times> u64) list), q1)"
    by blast
  from fifo_order [OF a, where d = 0]
  have "\<exists>q2. run (replicate 3 (Op_pop_st (Some 0)) @ [Op_pop_st (Some 0)]) q1
       = Some ([Ev_pop SPMC_QUEUE_OK (Some 10), Ev_pop SPMC_QUEUE_OK (Some 20),
                Ev_pop SPMC_QUEUE_OK (Some 30), Ev_pop SPMC_QUEUE_EMPTY (Some 0)], q2)"
    by (simp add: numeral_3_eq_3 del: run.simps step.simps)
  then show ?thesis using a by blast
qed

section \<open>The ceiling\<close>
lemma sint_INT64_MAX: "sint INT64_MAX = 2 ^ 63 - 1"
  by (simp add: INT64_MAX_def)

lemma push_succeeds:
  assumes inv: "queue_inv q" and unb: "sint (push_max_capacity q) < 0"
    and n: "length (queue_items q) < 2 ^ 62"
  shows "\<exists>r q'. spmc_queue_result_push_st (Some fresh) q item (push_item_size q) = Some (r, q') \<and>
          state r = SPMC_QUEUE_OK \<and> queue_inv q' \<and> queue_items q' = queue_items q @ [item] \<and>
          push_max_capacity q' = push_max_capacity q"
proof (cases "unat (push_head q - pop_tail q) < cap_of q")
  case True
  from push_room [OF inv True, of "Some fresh" item] show ?thesis by blast
next
  case False
  note fs = full_state [OF inv False]
  have c: "cap_of q < 2 ^ 62" using n fs(1) queue_items_length [OF inv] by simp
  then have "int (cap_of q) < 2 ^ 62" by simp
  moreover have "(2::int) ^ 62 < 2 ^ 63 - 1" by simp
  ultimately have "int (cap_of q) + 1 \<le> 2 ^ 63 - 1" by linarith
  then have al: "reserve_allowed q (push_head q - pop_tail q + 1)"
    using unb by (simp add: reserve_allowed_def fs(3) sint_INT64_MAX)
  from push_grows [OF inv False al c, of fresh item] show ?thesis by blast
qed

text \<open>The hypothesis of the FIFO theorem can be met for every number of items up to
  \<open>2 ^ 62\<close>: without a ceiling, and with every allocation succeeding, every push answers OK.\<close>

lemma pushes_succeed:
  assumes "queue_inv q" "sint (push_max_capacity q) < 0"
    and "\<forall>mx\<in>set mxs. fst mx \<noteq> None"
    and "length (queue_items q) + length mxs \<le> 2 ^ 62"
  shows "\<exists>q1. run (map (\<lambda>(m, x). Op_push_st m x) mxs) q
              = Some (map (\<lambda>(m, x). Ev_push x SPMC_QUEUE_OK) mxs, q1)"
  using assms
proof (induction mxs arbitrary: q)
  case Nil
  then show ?case by simp
next
  case (Cons mx mxs)
  obtain m x where mx: "mx = (m, x)" by (cases mx)
  then obtain fresh where m: "m = Some fresh" using Cons.prems(3) by auto
  have n: "length (queue_items q) < 2 ^ 62" using Cons.prems(4) by simp
  from push_succeeds [OF Cons.prems(1,2) n, of fresh x] obtain r q' where
    p: "spmc_queue_result_push_st (Some fresh) q x (push_item_size q) = Some (r, q')"
      "state r = SPMC_QUEUE_OK" "queue_inv q'" "queue_items q' = queue_items q @ [x]"
      "push_max_capacity q' = push_max_capacity q" by blast
  have st: "step (Op_push_st m x) q = Some (Ev_push x SPMC_QUEUE_OK, q')"
    using p(1,2) m by simp
  have "\<exists>q1. run (map (\<lambda>(m, x). Op_push_st m x) mxs) q'
              = Some (map (\<lambda>(m, x). Ev_push x SPMC_QUEUE_OK) mxs, q1)"
  proof (rule Cons.IH)
    show "queue_inv q'" using p(3) .
    show "sint (push_max_capacity q') < 0" using p(5) Cons.prems(2) by simp
    show "\<forall>mx\<in>set mxs. fst mx \<noteq> None" using Cons.prems(3) by simp
    show "length (queue_items q') + length mxs \<le> 2 ^ 62" using p(4) Cons.prems(4) by simp
  qed
  then obtain q1 where "run (map (\<lambda>(m, x). Op_push_st m x) mxs) q'
              = Some (map (\<lambda>(m, x). Ev_push x SPMC_QUEUE_OK) mxs, q1)" by blast
  then have "run (map (\<lambda>(m, x). Op_push_st m x) (mx # mxs)) q
              = Some (map (\<lambda>(m, x). Ev_push x SPMC_QUEUE_OK) (mx # mxs), q1)"
    using st mx by (simp del: step.simps)
  then show ?case by blast
qed

lemma pow2_le_imp_le:
  assumes "(2::nat) ^ a \<le> 2 ^ b"
  shows "a \<le> b"
  using assms by (simp add: power_le_imp_le_exp)

lemma pow2_lt_imp_lt:
  assumes "(2::nat) ^ a < 2 ^ b"
  shows "a < b"
  using assms by (simp add: power_less_imp_less_exp)

text \<open>
  Claim C3, as amended. Let the queue be initialised with a ceiling \<open>K > 0\<close>, and let
  \<open>2 ^ j\<close> be the smallest power of two that is at least \<open>K\<close> and at least 64. After
  \<open>2 ^ j\<close> pushes that answered OK and no pop, the next \<^verbatim>\<open>push_st\<close> answers FULL and
  changes nothing (so FULL comes after exactly \<open>K\<close> pushes when \<open>K\<close> is a power of two
  from 64 on); and \<^verbatim>\<open>pop_st\<close> on the freshly initialised queue answers EMPTY.
\<close>

theorem full_at_block_capacity:
  assumes reach: "run ops0 (zeroed []) = Some (evs0, qz)"
    and init: "spmc_queue_init qz item_size K = Some q0"
    and K: "0 < sint K"
    and j: "6 \<le> j" "sint K \<le> 2 ^ j" "j = 6 \<or> 2 ^ (j - 1) < sint K"
    and pushes: "run (map (\<lambda>(m, x). Op_push_st m x) mxs) q0
                   = Some (map (\<lambda>(m, x). Ev_push x SPMC_QUEUE_OK) mxs, q1)"
    and len: "length mxs = 2 ^ j"
  shows "spmc_queue_result_push_st malloc q1 x (push_item_size q1)
           = Some (\<lparr>head = push_head q1, tail = pop_tail q1, state = SPMC_QUEUE_FULL\<rparr>, q1) \<and>
         spmc_queue_result_pop_st q0 item (pop_item_size q0)
           = Some (\<lparr>head = 0, tail = 0, state = SPMC_QUEUE_EMPTY\<rparr>, item, q0)"
proof -
  have invz: "queue_inv qz" using reach by (rule reach_inv(1))
  note ip = init_preserves [OF invz init]
  have inv0: "queue_inv q0" using ip by simp
  have e0: "push_head q0 = pop_tail q0" using ip by simp
  have "pop_estimate_head q0 = push_head q0" using est_head_eq [OF inv0 e0] e0 by simp
  then have "q0\<lparr>pop_estimate_head := push_head q0\<rparr> = q0" by simp
  then have pop: "spmc_queue_result_pop_st q0 item (pop_item_size q0)
           = Some (\<lparr>head = 0, tail = 0, state = SPMC_QUEUE_EMPTY\<rparr>, item, q0)"
    using pop_st_empty [OF inv0 e0, of item] ip by simp
  have "length (queue_items q0) = 0" using queue_items_length [OF inv0] e0 by simp
  then have i0: "queue_items q0 = []" by simp
  have c0: "ceiling_inv q0" using ip by (simp add: ceiling_inv_def)
  note r = run_inv [OF inv0 pushes]
  have inv1: "queue_inv q1" using r by blast
  have c1: "ceiling_inv q1" using r c0 by blast
  have "\<forall>op\<in>set (map (\<lambda>(m, x). Op_push_st m x) mxs). \<not> is_init op" by auto
  then have mc: "push_max_capacity q1 = K" using r ip by simp
  have "queue_items q1 = foldl apply_event (queue_items q0) (map (\<lambda>(m, x). Ev_push x SPMC_QUEUE_OK) mxs)"
    using r by blast
  then have "queue_items q1 = map snd mxs" unfolding foldl_pushes i0 by simp
  then have "length (queue_items q1) = 2 ^ j" using len by simp
  then have n: "unat (push_head q1 - pop_tail q1) = 2 ^ j"
    using queue_items_length [OF inv1] by simp
  have le: "2 ^ j \<le> cap_of q1" using queue_inv_count(1) [OF inv1] n by simp
  have cap: "cap_of q1 = 2 ^ j"
    using inv1
  proof (cases rule: queue_inv_cases)
    case no_block
    then show ?thesis using le by simp
  next
    case (block p b k)
    have jk: "j \<le> k" using le block(7) by (simp add: power_le_imp_le_exp)
    have K0: "0 \<le> sint (push_max_capacity q1)" using mc K by simp
    have "k \<le> j"
    proof (cases "cap_of q1 \<le> 64")
      case True
      have "(64::nat) = 2 ^ 6" by simp
      then have "(2::nat) ^ k \<le> 2 ^ 6" using True block(7) by (simp only:)
      then have "k \<le> 6" by (rule pow2_le_imp_le)
      then show ?thesis using j(1) by simp
    next
      case False
      then have "int (cap_of q1) < 2 * sint K" using c1 K0 mc by (simp add: ceiling_inv_def)
      then have "int (2 ^ k) < 2 * 2 ^ j" using j(2) block(7) by simp
      then have "int (2 ^ k) < int (2 ^ Suc j)" by simp
      then have "(2::nat) ^ k < 2 ^ Suc j" by (simp only: of_nat_less_iff)
      then have "k < Suc j" by (rule pow2_lt_imp_lt)
      then show ?thesis by simp
    qed
    then show ?thesis using jk block(7) by simp
  qed
  have full: "\<not> unat (push_head q1 - pop_tail q1) < cap_of q1" using n cap by simp
  have "sint (push_head q1 - pop_tail q1 + 1) = 2 ^ j + 1"
    using full_state(3) [OF inv1 full] cap by simp
  then have na: "\<not> reserve_allowed q1 (push_head q1 - pop_tail q1 + 1)"
    using mc K j(2) by (simp add: reserve_allowed_def)
  from push_full_ceiling [OF inv1 full na, of malloc x] pop show ?thesis by blast
qed

theorem full_at_block_capacity_witness:
  "\<exists>q0 q1.
     run [] (zeroed [] :: u64 SPMC_Queue) = Some ([], zeroed []) \<and>
     spmc_queue_init (zeroed [] :: u64 SPMC_Queue) 8 64 = Some q0 \<and>
     0 < sint (64 :: isize) \<and> (6::nat) \<le> 6 \<and> sint (64 :: isize) \<le> 2 ^ 6 \<and>
     run (map (\<lambda>(m, x). Op_push_st m x) (replicate 64 (Some zero_filled, 7))) q0
       = Some (map (\<lambda>(m, x). Ev_push x SPMC_QUEUE_OK) (replicate 64 (Some zero_filled, 7)), q1) \<and>
     length (replicate 64 (Some zero_filled, 7 :: u64)) = 2 ^ 6 \<and>
     spmc_queue_result_push_st None q1 9 (push_item_size q1)
       = Some (\<lparr>head = push_head q1, tail = pop_tail q1, state = SPMC_QUEUE_FULL\<rparr>, q1) \<and>
     spmc_queue_result_pop_st q0 (Some 5) (pop_item_size q0)
       = Some (\<lparr>head = 0, tail = 0, state = SPMC_QUEUE_EMPTY\<rparr>, Some 5, q0)"
proof -
  have "\<exists>q0 q1. spmc_queue_init (zeroed [] :: u64 SPMC_Queue) 8 64 = Some q0 \<and>
     run (map (\<lambda>(m, x). Op_push_st m x) (replicate 64 (Some zero_filled, 7))) q0
       = Some (map (\<lambda>(m, x). Ev_push x SPMC_QUEUE_OK) (replicate 64 (Some zero_filled, 7)), q1)"
    by (simp add: eval_defs numeral_eq_Suc)
  then obtain q0 q1 where a: "spmc_queue_init (zeroed [] :: u64 SPMC_Queue) 8 64 = Some q0"
     "run (map (\<lambda>(m, x). Op_push_st m x) (replicate 64 (Some zero_filled, 7))) q0
       = Some (map (\<lambda>(m, x). Ev_push x SPMC_QUEUE_OK) (replicate 64 (Some zero_filled, 7)), q1)"
    by blast
  have z: "run [] (zeroed [] :: u64 SPMC_Queue) = Some ([], zeroed [])" by simp
  have K: "0 < sint (64 :: isize)" "sint (64 :: isize) \<le> 2 ^ 6" by simp_all
  have l: "length (replicate 64 (Some zero_filled, 7 :: u64)) = 2 ^ 6" by simp
  have j: "(6::nat) \<le> 6" "(6::nat) = 6 \<or> 2 ^ (6 - 1) < sint (64 :: isize)" by simp_all
  from full_at_block_capacity [OF z a(1) K(1) j(1) K(2) j(2) a(2) l, of None 9 "Some 5"]
  show ?thesis using z a K l by blast
qed

text \<open>Claim C3 as stated fails for a ceiling that is not a power of two from 64 on: with
  \<open>K = 1\<close> the first push allocates 64 slots, and the second push answers OK.\<close>

theorem full_after_K_pushes_counterexample:
  "map_option fst
     (run [Op_init 8 1, Op_push_st (Some zero_filled) 7, Op_push_st (Some zero_filled) 8]
        (zeroed []))
   = Some [Ev_init, Ev_push 7 SPMC_QUEUE_OK, Ev_push 8 SPMC_QUEUE_OK]"
  by (simp add: eval_defs)

section \<open>The concrete scenario\<close>
text \<open>
  Claim C4, as amended. The concrete sequential scenario: initialise without a ceiling
  with 8-byte items and reserve 8 slots, which allocates the minimum of 64 slots; push the
  integers 0 to 7 and then one more item (99), which needs no growth whatever
  \<^verbatim>\<open>malloc\<close> would answer: the capacity stays 64 (so it is at least 16) and no block
  is allocated; \<^verbatim>\<open>count\<close> then returns 9; eight calls of \<^verbatim>\<open>pop_st\<close> return 0 to 7 in
  order, one more returns the ninth value, and the next one answers EMPTY.
\<close>

theorem concrete_scenario:
  "\<exists>qa qb qc.
     run ([Op_init 8 (- 1), Op_reserve (Some zero_filled) 8]
            @ map (Op_push_st m) [0, 1, 2, 3, 4, 5, 6, 7]) (zeroed [])
       = Some ([Ev_init, Ev_reserve] @ map (\<lambda>x. Ev_push x SPMC_QUEUE_OK) [0, 1, 2, 3, 4, 5, 6, 7], qa) \<and>
     spmc_queue_capacity qa = Some 64 \<and>
     run [Op_push_st m 99] qa = Some ([Ev_push 99 SPMC_QUEUE_OK], qb) \<and>
     spmc_queue_capacity qb = Some 64 \<and>
     length (memory qb) = length (memory qa) \<and>
     spmc_queue_count qb = 9 \<and>
     run [Op_pop_st (Some d), Op_pop_st (Some d), Op_pop_st (Some d), Op_pop_st (Some d),
          Op_pop_st (Some d), Op_pop_st (Some d), Op_pop_st (Some d), Op_pop_st (Some d),
          Op_pop_st (Some d), Op_pop_st (Some d)] qb
       = Some (map (\<lambda>x. Ev_pop SPMC_QUEUE_OK (Some x)) [0, 1, 2, 3, 4, 5, 6, 7, 99]
                 @ [Ev_pop SPMC_QUEUE_EMPTY (Some d)], qc)"
  by (simp add: eval_defs)

text \<open>Claim C4 as stated has the ninth push trigger growth. It does not: even when
  \<^verbatim>\<open>malloc\<close> can only fail, the ninth push answers OK, and before and after it the queue
  has the one block of 64 slots that \<^verbatim>\<open>reserve(8)\<close> allocated.\<close>

theorem ninth_push_growth_counterexample:
  "map_option (spmc_queue_capacity \<circ> snd)
     (run [Op_init 8 (- 1), Op_reserve (Some zero_filled) 8, Op_push_st None 0,
           Op_push_st None 1, Op_push_st None 2, Op_push_st None 3, Op_push_st None 4,
           Op_push_st None 5, Op_push_st None 6, Op_push_st None 7] (zeroed []))
     = Some (Some 64) \<and>
   map_option (length \<circ> memory \<circ> snd)
     (run [Op_init 8 (- 1), Op_reserve (Some zero_filled) 8, Op_push_st None 0,
           Op_push_st None 1, Op_push_st None 2, Op_push_st None 3, Op_push_st None 4,
           Op_push_st None 5, Op_push_st None 6, Op_push_st None 7] (zeroed []))
     = Some 1 \<and>
   map_option fst
     (run [Op_init 8 (- 1), Op_reserve (Some zero_filled) 8, Op_push_st None 0,
           Op_push_st None 1, Op_push_st None 2, Op_push_st None 3, Op_push_st None 4,
           Op_push_st None 5, Op_push_st None 6, Op_push_st None 7, Op_push_st None 99]
        (zeroed []))
     = Some [Ev_init, Ev_reserve, Ev_push 0 SPMC_QUEUE_OK, Ev_push 1 SPMC_QUEUE_OK,
             Ev_push 2 SPMC_QUEUE_OK, Ev_push 3 SPMC_QUEUE_OK, Ev_push 4 SPMC_QUEUE_OK,
             Ev_push 5 SPMC_QUEUE_OK, Ev_push 6 SPMC_QUEUE_OK, Ev_push 7 SPMC_QUEUE_OK,
             Ev_push 99 SPMC_QUEUE_OK] \<and>
   map_option (spmc_queue_capacity \<circ> snd)
     (run [Op_init 8 (- 1), Op_reserve (Some zero_filled) 8, Op_push_st None 0,
           Op_push_st None 1, Op_push_st None 2, Op_push_st None 3, Op_push_st None 4,
           Op_push_st None 5, Op_push_st None 6, Op_push_st None 7, Op_push_st None 99]
        (zeroed []))
     = Some (Some 64) \<and>
   map_option (length \<circ> memory \<circ> snd)
     (run [Op_init 8 (- 1), Op_reserve (Some zero_filled) 8, Op_push_st None 0,
           Op_push_st None 1, Op_push_st None 2, Op_push_st None 3, Op_push_st None 4,
           Op_push_st None 5, Op_push_st None 6, Op_push_st None 7, Op_push_st None 99]
        (zeroed []))
     = Some 1"
  by (simp add: eval_defs)

section \<open>The weak pop and its output buffer\<close>
lemma race_queue_reached:
  "run [Op_init 8 (- 1), Op_push_st (Some zero_filled) 5] (zeroed [])
     = Some ([Ev_init, Ev_push 5 SPMC_QUEUE_OK], race_queue)"
  by (simp add: eval_defs race_queue_def fun_eq_iff)

text \<open>
  Claim C5, as amended. \<^verbatim>\<open>pop_weak\<close> copies the item into the caller's buffer before
  its compare-and-swap on the shared tail. When it answers EMPTY the buffer is left as it
  was; when it answers OK or FAILED_RACE the buffer is what the copy made of it: a buffer
  that is not \<^verbatim>\<open>NULL\<close> holds the content of the slot of the tail read at entry, also
  when the race was lost.
\<close>

theorem pop_weak_copy_before_cas:
  assumes "spmc_queue_result_pop_weak others q item item_size = Some (r, item', q')"
  shows "Some item' =
           (if state r = SPMC_QUEUE_EMPTY then Some item
            else pop_copy (memory q) (pop_block q) (pop_tail q) item)"
  using assms
  by (auto simp: spmc_queue_result_pop_weak_def pop_weak_take_def Let_def
           split: if_splits option.splits)

theorem pop_weak_copy_before_cas_witness:
  "spmc_queue_result_pop_weak other_consumer_pops race_queue (Some 99) 8
     = Some (\<lparr>head = 1, tail = 0, state = SPMC_QUEUE_FAILED_RACE\<rparr>, Some 5,
             race_queue\<lparr>pop_estimate_head := 1, pop_tail := 1\<rparr>) \<and>
   Some (Some 5) = pop_copy (memory race_queue) (pop_block race_queue) (pop_tail race_queue) (Some 99)"
proof -
  have a: "spmc_queue_result_pop_weak other_consumer_pops race_queue (Some 99) 8
     = Some (\<lparr>head = 1, tail = 0, state = SPMC_QUEUE_FAILED_RACE\<rparr>, Some 5,
             race_queue\<lparr>pop_estimate_head := 1, pop_tail := 1\<rparr>)"
    by (simp add: eval_defs race_queue_def other_consumer_pops_def)
  from pop_weak_copy_before_cas [OF a] show ?thesis using a by simp
qed

text \<open>Claim C5 as stated fails when the race is lost: the buffer held 99 before the call
  and holds the item 5 after it, although the call answers FAILED_RACE.\<close>

theorem pop_weak_failed_race_counterexample:
  "map_option (state \<circ> fst)
     (spmc_queue_result_pop_weak other_consumer_pops race_queue (Some 99) 8)
     = Some SPMC_QUEUE_FAILED_RACE \<and>
   map_option (fst \<circ> snd)
     (spmc_queue_result_pop_weak other_consumer_pops race_queue (Some 99) 8)
     = Some (Some 5)"
  by (simp add: eval_defs race_queue_def other_consumer_pops_def)

section \<open>Growth and the frame of a full push\<close>
lemma count_inv: "spmc_queue_count q = push_head q - pop_tail q"
  by (simp add: spmc_queue_count_def count_loop.simps Let_def)

lemma pow2_inj: "(2::nat) ^ a = 2 ^ b \<Longrightarrow> a = b"
  by simp

lemma cap_of_pow2:
  assumes "queue_inv q"
  shows "cap_of q = 0 \<or> (\<exists>k. 6 \<le> k \<and> k \<le> 62 \<and> cap_of q = 2 ^ k)"
  using assms by (cases rule: queue_inv_cases) auto

lemma capacity_pow2:
  assumes "queue_inv q" "cap_of q = 2 ^ j" "j \<le> 62"
  shows "spmc_queue_capacity q = Some (2 ^ j)"
  using assms(1)
proof (cases rule: queue_inv_cases)
  case no_block
  then show ?thesis using assms(2) by simp
next
  case (block p b k)
  then have "(2::nat) ^ k = 2 ^ j" using assms(2) by simp
  then have "k = j" by simp
  then show ?thesis using block by (simp add: spmc_queue_capacity_def mask_plus_1)
qed

text \<open>
  Claim C6. Whenever \<^verbatim>\<open>_spmc_queue_reserve\<close> allocates a new block in a reachable state,
  the new capacity is \<open>2 ^ j\<close> with \<open>j \<ge> 6\<close> (at least 64), it is at least the requested
  size, and it is the smallest such power of two (\<open>j = 6\<close>, or the next smaller power
  \<open>2 ^ (j - 1)\<close> is below the requested size); the old capacity is 0 or a power of two,
  and the new capacity is at least twice the old one; \<^verbatim>\<open>spmc_queue_capacity\<close> afterwards
  returns this power of two, which is at least the number of live items.
\<close>

theorem growth_capacity:
  assumes reach: "run ops (zeroed []) = Some (evs, q)"
    and res: "underscore_spmc_queue_reserve malloc q to_size = Some (new_block, q')"
    and alloc: "new_block \<noteq> push_block q"
  shows "\<exists>j old_cap. 6 \<le> j \<and> j \<le> 62 \<and>
           spmc_queue_capacity q' = Some (2 ^ j) \<and>
           sint to_size \<le> 2 ^ j \<and> (j = 6 \<or> 2 ^ (j - 1) < sint to_size) \<and>
           spmc_queue_capacity q = Some old_cap \<and>
           (old_cap = 0 \<or> (\<exists>k. old_cap = 2 ^ k)) \<and>
           2 * sint old_cap \<le> 2 ^ j \<and>
           0 \<le> sint (spmc_queue_count q') \<and> sint (spmc_queue_count q') \<le> 2 ^ j"
proof -
  have inv: "queue_inv q" using reach by (rule reach_inv(1))
  from reserve_cases [OF inv res] alloc obtain j where
    a: "reserve_allowed q to_size" "queue_inv q'" "push_head q' = push_head q"
       "pop_tail q' = pop_tail q"
    and j: "cap_of q' = 2 ^ j" "6 \<le> j" "j \<le> 62" "sint to_size \<le> 2 ^ j"
       "j = 6 \<or> 2 ^ (j - 1) < sint to_size"
    by auto
  have c': "spmc_queue_capacity q' = Some (2 ^ j)" using a(2) j(1,3) by (rule capacity_pow2)
  have "int (cap_of q) < sint to_size" using a(1) by (simp add: reserve_allowed_def)
  then have lt: "int (cap_of q) < 2 ^ j" using j(4) by linarith
  have "\<exists>old_cap. spmc_queue_capacity q = Some old_cap \<and>
           (old_cap = 0 \<or> (\<exists>k. old_cap = 2 ^ k)) \<and> 2 * sint old_cap \<le> 2 ^ j"
    using inv
  proof (cases rule: queue_inv_cases)
    case no_block
    then show ?thesis by (simp add: spmc_queue_capacity_def)
  next
    case (block p b k)
    have "(2::nat) ^ k < 2 ^ j" using lt block(7) by simp
    then have "k < j" by (rule pow2_lt_imp_lt)
    then have "Suc k \<le> j" by simp
    then have "(2::int) ^ Suc k \<le> 2 ^ j" by (rule power_increasing) simp
    then have d: "2 * (2::int) ^ k \<le> 2 ^ j" by simp
    have "k < 63" using block(6) by simp
    then have s: "sint (2 ^ k :: 64 word) = 2 ^ k" by (rule sint_pow2)
    have "spmc_queue_capacity q = Some (2 ^ k)"
      using block by (simp add: spmc_queue_capacity_def mask_plus_1)
    then show ?thesis using d s by auto
  qed
  moreover have "0 \<le> sint (spmc_queue_count q') \<and> sint (spmc_queue_count q') \<le> 2 ^ j"
  proof -
    note c = queue_inv_count [OF a(2)]
    have "int (unat (push_head q' - pop_tail q')) \<le> int (cap_of q')"
      using c(1) by (simp only: of_nat_le_iff)
    moreover have "int (cap_of q') = 2 ^ j" using j(1) by simp
    moreover have "0 \<le> int (unat (push_head q' - pop_tail q'))" by (rule of_nat_0_le_iff)
    ultimately show ?thesis unfolding count_inv c(2) by linarith
  qed
  ultimately show ?thesis using c' j by blast
qed

theorem growth_capacity_witness:
  "\<exists>q q' j old_cap.
     run [Op_init 8 (- 1), Op_reserve (Some zero_filled) 8, Op_push_st None 3]
       (zeroed [] :: u64 SPMC_Queue)
       = Some ([Ev_init, Ev_reserve, Ev_push 3 SPMC_QUEUE_OK], q) \<and>
     underscore_spmc_queue_reserve (Some zero_filled) q 100 = Some (Some 1, q') \<and>
     Some 1 \<noteq> push_block q \<and> j = 7 \<and>
     spmc_queue_capacity q' = Some (2 ^ j) \<and>
     sint (100 :: isize) \<le> 2 ^ j \<and> (j = 6 \<or> 2 ^ (j - 1) < sint (100 :: isize)) \<and>
     spmc_queue_capacity q = Some old_cap \<and> old_cap = 64 \<and>
     2 * sint old_cap \<le> 2 ^ j \<and> sint (spmc_queue_count q') \<le> 2 ^ j"
proof -
  have "\<exists>q q'. run [Op_init 8 (- 1), Op_reserve (Some zero_filled) 8, Op_push_st None 3]
       (zeroed [] :: u64 SPMC_Queue)
       = Some ([Ev_init, Ev_reserve, Ev_push 3 SPMC_QUEUE_OK], q) \<and>
     underscore_spmc_queue_reserve (Some zero_filled) q 100 = Some (Some 1, q') \<and>
     Some 1 \<noteq> push_block q \<and> spmc_queue_capacity q = Some 64 \<and>
     spmc_queue_capacity q' = Some 128"
    by (simp add: eval_defs)
  then obtain q q' where a:
    "run [Op_init 8 (- 1), Op_reserve (Some zero_filled) 8, Op_push_st None 3]
       (zeroed [] :: u64 SPMC_Queue)
       = Some ([Ev_init, Ev_reserve, Ev_push 3 SPMC_QUEUE_OK], q)"
    "underscore_spmc_queue_reserve (Some zero_filled) q 100 = Some (Some 1, q')"
    "Some 1 \<noteq> push_block q" "spmc_queue_capacity q = Some 64"
    "spmc_queue_capacity q' = Some 128" by blast
  from growth_capacity [OF a(1,2,3)] obtain j old_cap where j: "6 \<le> j" "j \<le> 62"
    "spmc_queue_capacity q' = Some (2 ^ j)" "sint (100 :: isize) \<le> 2 ^ j"
    "j = 6 \<or> 2 ^ (j - 1) < sint (100 :: isize)" "spmc_queue_capacity q = Some old_cap"
    "2 * sint old_cap \<le> 2 ^ j" "sint (spmc_queue_count q') \<le> 2 ^ j" by blast
  have "(2 ^ j :: 64 word) = 2 ^ 7" using j(3) a(5) by simp
  then have "unat (2 ^ j :: 64 word) = unat (2 ^ 7 :: 64 word)" by (rule arg_cong)
  moreover have "j < 64" using j(2) by simp
  ultimately have "(2::nat) ^ j = 2 ^ 7" by (simp add: unat_pow2)
  then have j7: "j = 7" by (rule pow2_inj)
  have "old_cap = 64" using j(6) a(4) by simp
  then show ?thesis using a j j7 by blast
qed

text \<open>
  Claim C7. Whenever \<^verbatim>\<open>push_st\<close> answers FULL in a reachable state, because the ceiling
  is reached or because the allocation failed, the call leaves the whole state as it was:
  head, tail, both block pointers, every block with every stored item, and the estimates.
\<close>

theorem push_full_frame:
  assumes reach: "run ops (zeroed []) = Some (evs, q)"
    and res: "spmc_queue_result_push_st malloc q item (push_item_size q) = Some (r, q')"
    and full: "state r = SPMC_QUEUE_FULL"
  shows "q' = q"
proof -
  have inv: "queue_inv q" using reach by (rule reach_inv(1))
  from push_cases [OF inv res] full show ?thesis by auto
qed

theorem push_full_frame_witness:
  "\<exists>q q'. run [Op_init 8 (- 1)] (zeroed [] :: u64 SPMC_Queue) = Some ([Ev_init], q) \<and>
     spmc_queue_result_push_st None q 5 (push_item_size q)
       = Some (\<lparr>head = 0, tail = 0, state = SPMC_QUEUE_FULL\<rparr>, q') \<and> q' = q"
proof -
  have "\<exists>q q'. run [Op_init 8 (- 1)] (zeroed [] :: u64 SPMC_Queue) = Some ([Ev_init], q) \<and>
     spmc_queue_result_push_st None q 5 (push_item_size q)
       = Some (\<lparr>head = 0, tail = 0, state = SPMC_QUEUE_FULL\<rparr>, q')"
    by (simp add: eval_defs)
  then obtain q q' where a: "run [Op_init 8 (- 1)] (zeroed [] :: u64 SPMC_Queue) = Some ([Ev_init], q)"
     "spmc_queue_result_push_st None q 5 (push_item_size q)
       = Some (\<lparr>head = 0, tail = 0, state = SPMC_QUEUE_FULL\<rparr>, q')" by blast
  have "state \<lparr>head = 0, tail = 0, state = SPMC_QUEUE_FULL\<rparr> = SPMC_QUEUE_FULL" by simp
  from push_full_frame [OF a(1,2) this] show ?thesis using a by blast
qed

section \<open>Idempotence of reservation\<close>
lemma new_cap_exit:
  "reserve_new_cap c n = Some y \<Longrightarrow> \<not> sint y < sint n"
proof (rule reserve_new_cap.raw_induct [where P = "\<lambda>c n y. \<not> sint y < sint n"])
  fix f :: "64 word \<Rightarrow> 64 word \<Rightarrow> 64 word option" and c n y
  assume ih: "\<And>c n y. f c n = Some y \<Longrightarrow> \<not> sint y < sint n"
    and body: "(if sint c < sint n then f (c * 2) n else Some c) = Some y"
  show "\<not> sint y < sint n"
  proof (cases "sint c < sint n")
    case True
    then have "f (c * 2) n = Some y" using body by simp
    then show ?thesis by (rule ih)
  next
    case False
    then show ?thesis using body by simp
  qed
qed

lemma reserve_none_any_malloc:
  "underscore_spmc_queue_reserve m1 q n = None \<Longrightarrow> underscore_spmc_queue_reserve m2 q n = None"
  by (auto simp: underscore_spmc_queue_reserve_def reserve_grow_def reserve_install_def
        block_cap_def Let_def split: option.splits if_splits)

lemma reserve_unchanged_any_malloc:
  assumes "underscore_spmc_queue_reserve (Some fresh) q n = Some (bp, q)"
  shows "underscore_spmc_queue_reserve m q n = Some (bp, q)"
proof -
  have ne: "q\<lparr>memory := memory q @ [x], push_block := Some (length (memory q)),
                 pop_block := Some (length (memory q))\<rparr> \<noteq> q" for x
  proof
    assume "q\<lparr>memory := memory q @ [x], push_block := Some (length (memory q)),
                 pop_block := Some (length (memory q))\<rparr> = q"
    then have "memory (q\<lparr>memory := memory q @ [x], push_block := Some (length (memory q)),
                 pop_block := Some (length (memory q))\<rparr>) = memory q" by (rule arg_cong)
    then show False by simp
  qed
  show ?thesis using assms ne
    by (auto simp: underscore_spmc_queue_reserve_def reserve_grow_def reserve_install_def
        block_cap_def Let_def split: option.splits if_splits)
qed

lemma reserve_installed:
  assumes "reserve_grow (Some fresh) q n = Some (bp, q1)"
  shows "\<exists>nb nc. reserve_new_cap 64 n = Some nc \<and> block_mask nb = nc - 1 \<and>
           bp = Some (length (memory q)) \<and>
           q1 = q\<lparr>memory := memory q @ [Some nb], push_block := Some (length (memory q)),
                  pop_block := Some (length (memory q))\<rparr>"
proof -
  from assms obtain nc where nc: "reserve_new_cap 64 n = Some nc"
    by (auto simp: reserve_grow_def Let_def split: option.splits)
  let ?nb = "\<lparr>block_next = push_block q, block_mask = nc - 1, block_items = fresh\<rparr>"
  show ?thesis
  proof (cases "push_block q")
    case None
    then have "bp = Some (length (memory q))"
      "q1 = q\<lparr>memory := memory q @ [Some ?nb], push_block := Some (length (memory q)),
                  pop_block := Some (length (memory q))\<rparr>"
      using assms nc by (auto simp: reserve_grow_def reserve_install_def Let_def)
    then show ?thesis using nc by (intro exI [of _ ?nb] exI [of _ nc]) simp
  next
    case (Some p)
    then obtain ob where ob: "load_block (memory q) p = Some ob"
      using assms nc by (auto simp: reserve_grow_def Let_def split: option.splits)
    let ?c = "reserve_copy ?nb ob (pop_tail q) (push_head q)"
    have "bp = Some (length (memory q))"
      "q1 = q\<lparr>memory := memory q @ [Some ?c], push_block := Some (length (memory q)),
                  pop_block := Some (length (memory q))\<rparr>"
      using assms nc Some ob by (auto simp: reserve_grow_def reserve_install_def Let_def)
    moreover have "block_mask ?c = nc - 1"
      using reserve_copy_header [of ?nb ob "pop_tail q" "push_head q"] by simp
    ultimately show ?thesis using nc by (intro exI [of _ ?c] exI [of _ nc]) simp
  qed
qed

lemma reserve_after_growth:
  assumes "reserve_grow (Some fresh) q n = Some (bp, q1)"
  shows "underscore_spmc_queue_reserve m2 q1 n = Some (bp, q1)"
proof -
  from reserve_installed [OF assms] obtain nb nc where a: "reserve_new_cap 64 n = Some nc"
    "block_mask nb = nc - 1" "bp = Some (length (memory q))"
    "q1 = q\<lparr>memory := memory q @ [Some nb], push_block := Some (length (memory q)),
                  pop_block := Some (length (memory q))\<rparr>" by blast
  have c: "block_cap (memory q1) (push_block q1) = Some nc"
    unfolding a(4) using a(2) by (simp add: block_cap_def load_block_def)
  have "\<not> sint nc < sint n" using a(1) by (rule new_cap_exit)
  then show ?thesis using c a(3,4)
    by (simp add: underscore_spmc_queue_reserve_def Let_def)
qed

lemma reserve_twice:
  "Option.bind (underscore_spmc_queue_reserve m1 q n)
      (\<lambda>(bp, q1). underscore_spmc_queue_reserve m2 q1 n)
   = underscore_spmc_queue_reserve (if m1 = None then m2 else m1) q n"
proof (cases m1)
  case None
  then show ?thesis
    by (auto simp: underscore_spmc_queue_reserve_def reserve_grow_def Let_def
          split: option.splits)
next
  case (Some fresh)
  show ?thesis
  proof (cases "underscore_spmc_queue_reserve (Some fresh) q n")
    case None
    then show ?thesis using Some by simp
  next
    case (Some r)
    obtain bp q1 where r: "r = (bp, q1)" by (cases r)
    note first = Some [unfolded r]
    have "underscore_spmc_queue_reserve m2 q1 n = Some (bp, q1)"
    proof (cases "reserve_grow (Some fresh) q n = Some (bp, q1)")
      case True
      then show ?thesis by (rule reserve_after_growth)
    next
      case False
      then have "q1 = q" using first
        by (auto simp: underscore_spmc_queue_reserve_def Let_def split: option.splits if_splits)
      then show ?thesis using first reserve_unchanged_any_malloc by blast
    qed
    then show ?thesis using first \<open>m1 = Some fresh\<close> by simp
  qed
qed

text \<open>
  Claim C8. \<^verbatim>\<open>reserve\<close> is idempotent, in every queue state and for every target
  capacity: two calls in a row leave exactly the state that one call leaves. With
  \<^verbatim>\<open>malloc\<close> in the picture the one call is given the answer of the first allocation
  that did not fail; when both calls get the same answer this is \<open>f (f q) = f q\<close>. And a
  call whose target the current capacity already covers changes nothing.
\<close>

theorem reserve_idempotent:
  "Option.bind (spmc_queue_reserve m1 q n) (\<lambda>q1. spmc_queue_reserve m2 q1 n)
     = spmc_queue_reserve (if m1 = None then m2 else m1) q n \<and>
   Option.bind (spmc_queue_reserve m q n) (\<lambda>q1. spmc_queue_reserve m q1 n)
     = spmc_queue_reserve m q n \<and>
   (block_cap (memory q) (push_block q) = Some c \<and> sint n \<le> sint c
      \<longrightarrow> spmc_queue_reserve m q n = Some q)"
proof -
  have t: "Option.bind (spmc_queue_reserve m1 q n) (\<lambda>q1. spmc_queue_reserve m2 q1 n)
     = spmc_queue_reserve (if m1 = None then m2 else m1) q n" for m1 m2
  proof -
    have "Option.bind (spmc_queue_reserve m1 q n) (\<lambda>q1. spmc_queue_reserve m2 q1 n)
        = map_option snd (Option.bind (underscore_spmc_queue_reserve m1 q n)
            (\<lambda>(bp, q1). underscore_spmc_queue_reserve m2 q1 n))"
      by (cases "underscore_spmc_queue_reserve m1 q n") (auto simp: spmc_queue_reserve_def)
    then show ?thesis unfolding reserve_twice by (simp add: spmc_queue_reserve_def)
  qed
  have "Option.bind (spmc_queue_reserve m q n) (\<lambda>q1. spmc_queue_reserve m q1 n)
     = spmc_queue_reserve m q n"
    using t [of m m] by simp
  moreover have "block_cap (memory q) (push_block q) = Some c \<and> sint n \<le> sint c
      \<longrightarrow> spmc_queue_reserve m q n = Some q"
    by (simp add: spmc_queue_reserve_def underscore_spmc_queue_reserve_def Let_def)
  ultimately show ?thesis using t by blast
qed

theorem reserve_idempotent_witness:
  "\<exists>q1. spmc_queue_reserve (Some zero_filled) race_queue 100 = Some q1 \<and>
     spmc_queue_reserve (Some zero_filled) q1 100 = Some q1 \<and>
     block_cap (memory race_queue) (push_block race_queue) = Some 64 \<and>
     sint (8 :: isize) \<le> sint (64 :: isize) \<and>
     spmc_queue_reserve (Some zero_filled) race_queue 8 = Some race_queue"
proof -
  have "\<exists>q1. spmc_queue_reserve (Some zero_filled) race_queue 100 = Some q1"
    by (simp add: eval_defs race_queue_def)
  then obtain q1 where a: "spmc_queue_reserve (Some zero_filled) race_queue 100 = Some q1"
    by blast
  have b: "block_cap (memory race_queue) (push_block race_queue) = Some 64"
    "sint (8 :: isize) \<le> sint (64 :: isize)"
    by (simp_all add: eval_defs race_queue_def)
  note t = reserve_idempotent [of "Some zero_filled" race_queue 100 "Some zero_filled"
      "Some zero_filled" 64]
  note u = reserve_idempotent [of "Some zero_filled" race_queue 8 "Some zero_filled"
      "Some zero_filled" 64]
  have "spmc_queue_reserve (Some zero_filled) q1 100 = Some q1" using t a by simp
  moreover have "spmc_queue_reserve (Some zero_filled) race_queue 8 = Some race_queue"
    using u b by blast
  ultimately show ?thesis using a b by blast
qed

section \<open>A ceiling of zero, and pops without a buffer\<close>
lemma zero_ceiling_state:
  assumes inv: "queue_inv q" and c: "ceiling_inv q" and mc: "push_max_capacity q = 0"
  shows "cap_of q = 0" and "push_block q = None" and "pop_block q = None"
    and "push_head q = pop_tail q"
proof -
  show cap: "cap_of q = 0" using c mc by (simp add: ceiling_inv_def)
  show pb: "push_block q = None"
    using inv
  proof (cases rule: queue_inv_cases)
    case no_block
    then show ?thesis by simp
  next
    case (block p b k)
    then show ?thesis using cap by simp
  qed
  show "pop_block q = None" using inv pb by (simp add: queue_inv_def)
  have "unat (push_head q - pop_tail q) \<le> 0" using queue_inv_count(1) [OF inv] cap by simp
  then show "push_head q = pop_tail q" by (simp add: unat_eq_zero)
qed

text \<open>
  Claim C9. When the queue was last initialised with \<^verbatim>\<open>max_capacity = 0\<close>, then in every
  state reached afterwards every \<^verbatim>\<open>push_st\<close> answers FULL and changes nothing, and
  \<^verbatim>\<open>reserve\<close> never allocates a block, whatever \<^verbatim>\<open>malloc\<close> would answer: zero is a
  ceiling of zero. And only a negative \<^verbatim>\<open>max_capacity\<close> disables the ceiling: on a
  queue initialised with \<open>mc\<close>, a reservation of \<open>n\<close> slots (\<open>0 < n \<le> 2 ^ 62\<close>) with
  \<^verbatim>\<open>malloc\<close> succeeding allocates a block exactly when \<open>mc\<close> is negative or
  \<open>n \<le> mc\<close>.
\<close>

theorem zero_ceiling:
  assumes reach: "run (pre @ Op_init item_size 0 # post) (zeroed []) = Some (evs, q)"
    and post: "\<forall>op\<in>set post. \<not> is_init op"
    and init: "spmc_queue_init q item_size' mc = Some q2"
    and n: "0 < sint n" "sint n \<le> 2 ^ 62"
  shows "spmc_queue_result_push_st malloc q item (push_item_size q)
           = Some (\<lparr>head = push_head q, tail = pop_tail q, state = SPMC_QUEUE_FULL\<rparr>, q) \<and>
         underscore_spmc_queue_reserve malloc q to_size = Some (None, q) \<and>
         push_block q = None \<and> pop_block q = None \<and>
         (\<exists>new_block q3.
            underscore_spmc_queue_reserve (Some fresh) q2 n = Some (new_block, q3) \<and>
            (new_block \<noteq> None) = (sint mc < 0 \<or> sint n \<le> sint mc))"
proof -
  from reach obtain e1 qa e2 qb e3 where
    r1: "run pre (zeroed []) = Some (e1, qa)"
    and r2: "step (Op_init item_size 0) qa = Some (e2, qb)"
    and r3: "run post qb = Some (e3, q)"
    unfolding run_append by (auto split: option.splits simp del: step.simps)
  have inva: "queue_inv qa" using r1 by (rule reach_inv(1))
  have i: "spmc_queue_init qa item_size 0 = Some qb" using r2 by auto
  note ip = init_preserves [OF inva i]
  have invb: "queue_inv qb" using ip by simp
  have cb: "ceiling_inv qb" using ip by (simp add: ceiling_inv_def)
  note r = run_inv [OF invb r3]
  have inv: "queue_inv q" using r by blast
  have c: "ceiling_inv q" using r cb by blast
  have mc0: "push_max_capacity q = 0" using r post ip by simp
  note z = zero_ceiling_state [OF inv c mc0]
  have full: "\<not> unat (push_head q - pop_tail q) < cap_of q" using z(1) by simp
  have na: "\<not> reserve_allowed q x" for x
    using z(1) mc0 by (simp add: reserve_allowed_def)
  have push: "spmc_queue_result_push_st malloc q item (push_item_size q)
           = Some (\<lparr>head = push_head q, tail = pop_tail q, state = SPMC_QUEUE_FULL\<rparr>, q)"
    using inv full na by (rule push_full_ceiling)
  have res: "underscore_spmc_queue_reserve malloc q to_size = Some (None, q)"
    using reserve_noop [OF inv na, of malloc to_size] z(2) by simp
  note ip2 = init_preserves [OF inv init]
  have inv2: "queue_inv q2" using ip2 by simp
  have "\<exists>new_block q3.
            underscore_spmc_queue_reserve (Some fresh) q2 n = Some (new_block, q3) \<and>
            (new_block \<noteq> None) = (sint mc < 0 \<or> sint n \<le> sint mc)"
  proof (cases "reserve_allowed q2 n")
    case True
    from reserve_grows [OF inv2 True n(2), of fresh] obtain q3 where
      "reserve_grow (Some fresh) q2 n = Some (Some (length (memory q2)), q3)" by blast
    then have g: "underscore_spmc_queue_reserve (Some fresh) q2 n
        = Some (Some (length (memory q2)), q3)"
      unfolding reserve_unfold [OF inv2] using True by simp
    have "sint mc < 0 \<or> sint n \<le> sint mc"
      using True ip2 by (auto simp: reserve_allowed_def split: if_splits)
    then show ?thesis using g by simp
  next
    case False
    have g: "underscore_spmc_queue_reserve (Some fresh) q2 n = Some (None, q2)"
      using reserve_noop [OF inv2 False, of "Some fresh"] ip2 by simp
    have "(2::int) ^ 62 \<le> 2 ^ 63 - 1" by simp
    then have "sint n \<le> sint INT64_MAX" unfolding sint_INT64_MAX using n(2) by linarith
    then have "\<not> (sint mc < 0 \<or> sint n \<le> sint mc)"
      using False ip2 n(1) by (auto simp: reserve_allowed_def split: if_splits)
    then show ?thesis using g by simp
  qed
  then show ?thesis using push res z(2,3) by blast
qed

theorem zero_ceiling_witness:
  "\<exists>evs q q2 q3.
     run ([] @ Op_init 8 0 # [Op_push_st (Some zero_filled) 1, Op_reserve (Some zero_filled) 10,
                              Op_pop_st (Some 3)])
       (zeroed [] :: u64 SPMC_Queue) = Some (evs, q) \<and>
     evs = [Ev_init, Ev_push 1 SPMC_QUEUE_FULL, Ev_reserve, Ev_pop SPMC_QUEUE_EMPTY (Some 3)] \<and>
     spmc_queue_init q 8 (- 1) = Some q2 \<and>
     0 < sint (10 :: isize) \<and> sint (10 :: isize) \<le> 2 ^ 62 \<and>
     spmc_queue_result_push_st (Some zero_filled) q 7 (push_item_size q)
       = Some (\<lparr>head = push_head q, tail = pop_tail q, state = SPMC_QUEUE_FULL\<rparr>, q) \<and>
     underscore_spmc_queue_reserve (Some zero_filled) q 10 = Some (None, q) \<and>
     push_block q = None \<and>
     underscore_spmc_queue_reserve (Some zero_filled) q2 10 = Some (Some 0, q3)"
proof -
  have "\<exists>evs q q2 q3.
     run ([] @ Op_init 8 0 # [Op_push_st (Some zero_filled) 1, Op_reserve (Some zero_filled) 10,
                              Op_pop_st (Some 3)])
       (zeroed [] :: u64 SPMC_Queue) = Some (evs, q) \<and>
     evs = [Ev_init, Ev_push 1 SPMC_QUEUE_FULL, Ev_reserve, Ev_pop SPMC_QUEUE_EMPTY (Some 3)] \<and>
     spmc_queue_init q 8 (- 1) = Some q2 \<and>
     underscore_spmc_queue_reserve (Some zero_filled) q2 10 = Some (Some 0, q3)"
    by (simp add: eval_defs)
  then obtain evs q q2 q3 where a:
    "run ([] @ Op_init 8 0 # [Op_push_st (Some zero_filled) 1, Op_reserve (Some zero_filled) 10,
                              Op_pop_st (Some 3)])
       (zeroed [] :: u64 SPMC_Queue) = Some (evs, q)"
    "evs = [Ev_init, Ev_push 1 SPMC_QUEUE_FULL, Ev_reserve, Ev_pop SPMC_QUEUE_EMPTY (Some 3)]"
    "spmc_queue_init q 8 (- 1) = Some q2"
    "underscore_spmc_queue_reserve (Some zero_filled) q2 10 = Some (Some 0, q3)"
    by blast
  have p: "\<forall>op\<in>set [Op_push_st (Some zero_filled) 1, Op_reserve (Some zero_filled) 10,
                              Op_pop_st (Some (3 :: u64))]. \<not> is_init op" by simp
  have n: "0 < sint (10 :: isize)" "sint (10 :: isize) \<le> 2 ^ 62" by simp_all
  from zero_ceiling [OF a(1) p a(3) n, of "Some zero_filled" 7 10 zero_filled]
  show ?thesis using a n by blast
qed

text \<open>
  Claim C10. In every reachable state with a queue that is not empty, \<^verbatim>\<open>pop_st\<close>,
  \<^verbatim>\<open>pop_weak\<close> and \<^verbatim>\<open>pop\<close> (run by the only consumer) called with a \<^verbatim>\<open>NULL\<close> buffer
  still dequeue the oldest item: each answers OK, hands nothing out, advances the tail by
  one and leaves head and memory as they were, so that the items left are the former
  items without the first.
\<close>

theorem pop_null_buffer:
  assumes reach: "run ops (zeroed []) = Some (evs, q)"
    and nonempty: "push_head q \<noteq> pop_tail q"
  shows "\<exists>r q'.
           spmc_queue_result_pop_st q None (pop_item_size q) = Some (r, None, q') \<and>
           spmc_queue_result_pop_weak id q None (pop_item_size q) = Some (r, None, q') \<and>
           spmc_queue_result_pop [] q None (pop_item_size q) = Some (r, None, q') \<and>
           state r = SPMC_QUEUE_OK \<and> tail r = pop_tail q \<and>
           pop_tail q' = pop_tail q + 1 \<and> push_head q' = push_head q \<and>
           memory q' = memory q \<and> pop_block q' = pop_block q \<and>
           queue_items q' = tl (queue_items q)"
proof -
  have inv: "queue_inv q" using reach by (rule reach_inv(1))
  let ?eh = "if pop_estimate_head q = pop_tail q then push_head q else pop_estimate_head q"
  let ?r = "\<lparr>head = ?eh, tail = pop_tail q, state = SPMC_QUEUE_OK\<rparr>"
  let ?q = "q\<lparr>pop_estimate_head := ?eh, pop_tail := pop_tail q + 1\<rparr>"
  have 1: "spmc_queue_result_pop_st q None (pop_item_size q) = Some (?r, None, ?q)"
    using pop_st_ok [OF inv nonempty refl, of None] by simp
  have 2: "spmc_queue_result_pop_weak id q None (pop_item_size q) = Some (?r, None, ?q)"
    using pop_weak_ok [OF inv nonempty refl, of None] by simp
  have 3: "spmc_queue_result_pop [] q None (pop_item_size q) = Some (?r, None, ?q)"
    using pop_ok [OF inv nonempty refl, of None] by simp
  note ps = popped_state [OF inv nonempty refl refl]
  show ?thesis
    using 1 2 3 ps(2) by (intro exI [of _ ?r] exI [of _ ?q]) simp
qed

theorem pop_null_buffer_witness:
  "run [Op_init 8 (- 1), Op_push_st (Some zero_filled) 5] (zeroed [])
     = Some ([Ev_init, Ev_push 5 SPMC_QUEUE_OK], race_queue) \<and>
   push_head race_queue \<noteq> pop_tail race_queue \<and>
   spmc_queue_result_pop_st race_queue None 8
     = Some (\<lparr>head = 1, tail = 0, state = SPMC_QUEUE_OK\<rparr>, None,
             race_queue\<lparr>pop_estimate_head := 1, pop_tail := 1\<rparr>) \<and>
   (\<exists>r q'. spmc_queue_result_pop_st race_queue None (pop_item_size race_queue) = Some (r, None, q') \<and>
           spmc_queue_result_pop_weak id race_queue None (pop_item_size race_queue) = Some (r, None, q') \<and>
           spmc_queue_result_pop [] race_queue None (pop_item_size race_queue) = Some (r, None, q') \<and>
           state r = SPMC_QUEUE_OK \<and> pop_tail q' = pop_tail race_queue + 1 \<and>
           queue_items q' = tl (queue_items race_queue))"
proof -
  have ne: "push_head race_queue \<noteq> pop_tail race_queue" by (simp add: race_queue_def)
  have e: "spmc_queue_result_pop_st race_queue None 8
     = Some (\<lparr>head = 1, tail = 0, state = SPMC_QUEUE_OK\<rparr>, None,
             race_queue\<lparr>pop_estimate_head := 1, pop_tail := 1\<rparr>)"
    by (simp add: eval_defs race_queue_def)
  from pop_null_buffer [OF race_queue_reached ne] show ?thesis
    using race_queue_reached ne e by blast
qed

end
